theory Spec2Isabelle
  imports Main
begin

section \<open>Bytes, buffers and strings\<close>

text \<open>
  A Node \<open>Buffer\<close> is a list of bytes; a byte is a \<^typ>\<open>char\<close>. The strings the
  parser builds with \<open>toString()\<close> are kept as the bytes they were decoded from (the
  UTF-8 decoding itself is not modelled): the comparisons with \<open>'data'\<close>, \<open>'event'\<close>
  and \<open>'id'\<close> and the emptiness tests read the same on both sides of the decoding.
  \<open>toString()\<close> is only ever applied to a whole field name or a whole field value, taken
  from the reassembled buffer, so what it returns does not depend on where the chunks
  were cut.
\<close>

type_synonym bytes = "char list"

abbreviation COLON_CHARACTER :: char where "COLON_CHARACTER \<equiv> CHR 0x3A"
abbreviation SPACE_CHARACTER :: char where "SPACE_CHARACTER \<equiv> CHR 0x20"
abbreviation LINE_FEED_CHARACTER :: char where "LINE_FEED_CHARACTER \<equiv> CHR 0x0A"
abbreviation CARRIAGE_RETURN_CHARACTER :: char where "CARRIAGE_RETURN_CHARACTER \<equiv> CHR 0x0D"

text \<open>\<open>buffer[i]\<close>: \<open>undefined\<close> (here \<open>None\<close>) outside the buffer.\<close>

definition byte_at :: "bytes \<Rightarrow> int \<Rightarrow> char option" where
  "byte_at buffer i =
     (if 0 \<le> i \<and> i < int (length buffer) then Some (buffer ! nat i) else None)"

text \<open>\<open>buffer.slice(start, end)\<close>: a negative index counts from the end, both are
  clamped to the buffer, and an end before the start gives the empty buffer.\<close>

definition slice_index :: "nat \<Rightarrow> int \<Rightarrow> nat" where
  "slice_index n i = (if i < 0 then nat (int n + i) else min (nat i) n)"

definition slice :: "bytes \<Rightarrow> int \<Rightarrow> int \<Rightarrow> bytes" where
  "slice buffer start end =
     (let s = slice_index (length buffer) start;
          e = slice_index (length buffer) end
      in take (e - s) (drop s buffer))"

definition slice_from :: "bytes \<Rightarrow> int \<Rightarrow> bytes" where
  "slice_from buffer start = drop (slice_index (length buffer) start) buffer"

section \<open>The instance and the per-response closure\<close>

datatype ReadyStates = CONNECTING | CONNECTED | DISCONNECTED

text \<open>The object passed to a subscriber of an event: \<open>{id, name, data}\<close>.\<close>

record event =
  e_id :: "string option"
  e_name :: "string option"
  e_data :: string

text \<open>The errors the instance creates or passes on: the two \<open>new Error\<close> of
  \<open>handleResponse\<close> (with the status code, with the content type), the \<open>TypeError\<close> of
  \<open>contentType.includes\<close> when the response has no \<open>content-type\<close> header, the
  \<open>new Error\<close> of the heartbeat callback (with the timeout), and an error of the transport.\<close>

datatype failure =
    ResponseNotOK int
  | WrongContentType string
  | TypeError
  | NoHeartbeat int
  | TransportFailure string

text \<open>One call of \<open>this.emit(type, argument)\<close>.\<close>

datatype argument = NoArgument | Failure failure | Record event

type_synonym emission = "string \<times> argument"

text \<open>
  The fields of \<open>this\<close>. The collaborators are kept by what the instance does to them:
  \<open>requests\<close> lists the header maps of the transport requests opened so far, \<open>inflight\<close>
  counts the requests whose promise is still pending, \<open>backoffPending\<close> says whether the
  backoff policy has a delay running (its \<open>ready\<close> signal calls \<open>connect\<close>),
  \<open>backoffResets\<close> counts the calls of \<open>backoff.reset()\<close>, and \<open>destroyed\<close> lists the
  calls \<open>writable.destroy(err)\<close> made by heartbeat callbacks, each with the number of the
  request whose response stream it destroys. \<open>heartbeatInterval\<close> is \<open>None\<close> when no
  interval is set, and otherwise holds the number of the request whose stream the
  interval's callback closes over. \<open>heartbeatTimeout\<close> is \<open>options.heartbeatTimeout\<close>.
  \<open>emit\<close> appends the notification to \<open>emitted\<close> and, to \<open>seen\<close>, the ready state at
  the moment of the call, which is the state a listener of that notification reads.
  Of the listeners only one fact is kept: \<open>errorListener\<close> says whether the owner has
  attached a listener for \<open>error\<close>, since \<open>emit('error', err)\<close> on an emitter without one
  throws \<open>err\<close>.
\<close>

record EventSource =
  readyState :: ReadyStates
  lastEventId :: "string option"
  heartbeatInterval :: "nat option"
  lastHeartbeat :: "int option"
  heartbeatTimeout :: int
  emitted :: "emission list"
  requests :: "(string \<times> string) list list"
  inflight :: nat
  backoffPending :: bool
  backoffResets :: nat
  destroyed :: "(nat \<times> failure) list"
  errorListener :: bool
  seen :: "ReadyStates list"

text \<open>The variables \<open>handleResponse\<close> closes over, one set per accepted response.\<close>

record Stream =
  eventId :: "string option"
  eventName :: "string option"
  eventData :: string
  buffer :: "bytes option"
  discardTrailingNewline :: bool
  heartbeat :: bool

section \<open>Event assembler: \<open>parseEventStreamLine\<close>\<close>

text \<open>\<open>eventName || 'message'\<close>: \<open>null\<close> and the empty string are falsy.\<close>

definition or_message :: "string option \<Rightarrow> string" where
  "or_message n = (case n of None \<Rightarrow> ''message'' | Some v \<Rightarrow> if v = [] then ''message'' else v)"

definition emit :: "string \<Rightarrow> argument \<Rightarrow> EventSource \<Rightarrow> EventSource" where
  "emit type arg es =
     es\<lparr>emitted := emitted es @ [(type, arg)], seen := seen es @ [readyState es]\<rparr>"

text \<open>The branch \<open>lineLength === 0\<close>: a blank line completes the record.
  \<open>eventData\<close>, when not empty, ends with the line feed of its last \<open>data\<close> line, which
  \<open>slice(0, -1)\<close> removes.\<close>

definition dispatch :: "EventSource \<times> Stream \<Rightarrow> EventSource \<times> Stream" where
  "dispatch st =
     (let es = fst st; s = snd st;
          (es1, s1) =
            (if length (eventData s) > 0
             then (emit (or_message (eventName s))
                     (Record \<lparr>e_id = eventId s, e_name = eventName s,
                              e_data = butlast (eventData s)\<rparr>) es,
                   s\<lparr>eventData := []\<rparr>)
             else (es, s));
          (es2, s2) =
            (case eventId s1 of
               Some i \<Rightarrow> (es1\<lparr>lastEventId := Some i\<rparr>, s1\<lparr>eventId := None\<rparr>)
             | None \<Rightarrow> (es1, s1))
      in (es2, s2\<lparr>eventName := None\<rparr>))"

text \<open>The final \<open>if\<close> chain on the field name.\<close>

definition store_field :: "bytes \<Rightarrow> bytes \<Rightarrow> EventSource \<times> Stream \<Rightarrow> EventSource \<times> Stream" where
  "store_field field val st =
     (let es = fst st; s = snd st in
      if field = ''data'' then (es, s\<lparr>eventData := eventData s @ val @ [LINE_FEED_CHARACTER]\<rparr>)
      else if field = ''event'' then (es, s\<lparr>eventName := Some val\<rparr>)
      else if field = ''id'' then (es, s\<lparr>eventId := Some val\<rparr>)
      else (es, s))"

definition parseEventStreamLine ::
  "bytes \<Rightarrow> int \<Rightarrow> int \<Rightarrow> int \<Rightarrow> EventSource \<times> Stream \<Rightarrow> EventSource \<times> Stream" where
  "parseEventStreamLine buf position fieldLength lineLength st =
     (if lineLength = 0 then dispatch st
      else if fieldLength > 0 then
        let emptyValue = (fieldLength < 0);
            field = slice buf position
                      (position + (if emptyValue then lineLength else fieldLength));
            step = (if emptyValue then lineLength
                    else if byte_at buf (position + fieldLength + 1) \<noteq> Some SPACE_CHARACTER
                    then fieldLength + 1
                    else fieldLength + 2);
            position' = position + step;
            valueLength = lineLength - step;
            val = slice buf position' (position' + valueLength)
        in store_field field val st
      else st)"

section \<open>Frame parser: the \<open>write\<close> method of the response stream\<close>

text \<open>The inner \<open>for\<close> loop: looks for the end of the line that starts at \<open>position\<close>
  and for its first colon. Returns \<open>(lineLength, fieldLength, discardTrailingNewline)\<close>.\<close>

function scanLine ::
  "bytes \<Rightarrow> int \<Rightarrow> int \<Rightarrow> int \<Rightarrow> int \<Rightarrow> int \<Rightarrow> bool \<Rightarrow> int \<times> int \<times> bool" where
  "scanLine buf bufferLength position bufferIndex lineLength fieldLength discard =
     (if lineLength < 0 \<and> bufferIndex < bufferLength then
        let character = byte_at buf bufferIndex in
        if character = Some COLON_CHARACTER then
          scanLine buf bufferLength position (bufferIndex + 1) lineLength
            (if fieldLength < 0 then bufferIndex - position else fieldLength) discard
        else if character = Some CARRIAGE_RETURN_CHARACTER then
          scanLine buf bufferLength position (bufferIndex + 1) (bufferIndex - position)
            fieldLength True
        else if character = Some LINE_FEED_CHARACTER then
          scanLine buf bufferLength position (bufferIndex + 1) (bufferIndex - position)
            fieldLength discard
        else scanLine buf bufferLength position (bufferIndex + 1) lineLength fieldLength discard
      else (lineLength, fieldLength, discard))"
  by pat_completeness auto
termination
  by (relation "measure (\<lambda>(buf, bufferLength, position, bufferIndex, lineLength, fieldLength, discard).
        nat (bufferLength - bufferIndex))") auto

declare scanLine.simps [simp del]

text \<open>The outer \<open>while\<close> loop. Returns the final \<open>position\<close> with the state.\<close>

function parseLoop ::
  "bytes \<Rightarrow> int \<Rightarrow> int \<Rightarrow> EventSource \<times> Stream \<Rightarrow> int \<times> EventSource \<times> Stream" where
  "parseLoop buf bufferLength position st =
     (if position < bufferLength then
        let es = fst st; s = snd st;
            position1 = (if discardTrailingNewline s
                            \<and> byte_at buf position = Some LINE_FEED_CHARACTER
                         then position + 1 else position);
            s1 = (if discardTrailingNewline s then s\<lparr>discardTrailingNewline := False\<rparr> else s);
            found = scanLine buf bufferLength position1 position1 (- 1) (- 1)
                      (discardTrailingNewline s1);
            lineLength = fst found;
            fieldLength = fst (snd found);
            s2 = s1\<lparr>discardTrailingNewline := snd (snd found)\<rparr>
        in if lineLength < 0 then (position1, es, s2)
           else parseLoop buf bufferLength (position1 + lineLength + 1)
                  (parseEventStreamLine buf position1 fieldLength lineLength (es, s2))
      else (position, st))"
  by pat_completeness auto
termination
  by (relation "measure (\<lambda>(buf, bufferLength, position, st). nat (bufferLength - position))")
     (auto simp: Let_def)

declare parseLoop.simps [simp del]

text \<open>The body of \<open>write\<close> up to the heartbeat call: append the chunk to the partial
  buffer, parse every complete line, keep the unconsumed tail. (The method itself is
  \<open>writable_write\<close> below: \<open>write\<close> is a word of the proof language.)\<close>

definition consume :: "bytes \<Rightarrow> EventSource \<times> Stream \<Rightarrow> EventSource \<times> Stream" where
  "consume chunk st =
     (let es = fst st; s = snd st;
          buf = (case buffer s of Some b \<Rightarrow> b @ chunk | None \<Rightarrow> chunk);
          bufferLength = int (length buf);
          done = parseLoop buf bufferLength 0 (es, s\<lparr>buffer := Some buf\<rparr>);
          position = fst done; es1 = fst (snd done); s1 = snd (snd done);
          s2 = (if position = bufferLength then s1\<lparr>buffer := None\<rparr>
                else if position > 0 then s1\<lparr>buffer := Some (slice_from buf position)\<rparr>
                else s1)
      in (es1, s2))"

text \<open>\<open>write\<close> at time \<open>now\<close>: \<open>heartbeat?.()\<close> records the time when \<open>heartbeat\<close> is
  a function.\<close>

definition writable_write :: "int \<Rightarrow> bytes \<Rightarrow> EventSource \<times> Stream \<Rightarrow> EventSource \<times> Stream" where
  "writable_write now chunk st =
     (let st1 = consume chunk st; es = fst st1; s = snd st1
      in (if heartbeat s then es\<lparr>lastHeartbeat := Some now\<rparr> else es, s))"

text \<open>The chunks of a response, delivered one at a time.\<close>

fun write_all :: "(int \<times> bytes) list \<Rightarrow> EventSource \<times> Stream \<Rightarrow> EventSource \<times> Stream" where
  "write_all [] st = st"
| "write_all ((now, chunk) # rest) st = write_all rest (writable_write now chunk st)"

section \<open>Connection manager\<close>

text \<open>\<open>if (this.lastEventId)\<close>: \<open>null\<close> and the empty string are falsy.\<close>

definition truthy :: "string option \<Rightarrow> bool" where
  "truthy v = (case v of None \<Rightarrow> False | Some x \<Rightarrow> x \<noteq> [])"

text \<open>\<open>connect\<close> up to the \<open>await\<close>: the guard, the state change, the notification, the
  headers and the call of \<open>undici.stream\<close>.\<close>

definition connect :: "EventSource \<Rightarrow> EventSource" where
  "connect es =
     (if readyState es \<in> set [CONNECTING, CONNECTED] then es
      else
        let es1 = es\<lparr>readyState := CONNECTING\<rparr>;
            es2 = emit ''connecting'' NoArgument es1;
            headers = (if truthy (lastEventId es2)
                       then [(''Last-Event-ID'', the (lastEventId es2))] else [])
        in es2\<lparr>requests := requests es2 @ [headers], inflight := inflight es2 + 1\<rparr>)"

text \<open>The statements of \<open>connect\<close> that follow the \<open>try\<close> and \<open>catch\<close>: the
  notification first, then the state. \<open>backoff.backoff()\<close> starts a delay, or throws
  when one is running already, which the \<open>try\<close> around it swallows: a delay is running
  afterwards in both cases.\<close>

definition teardown :: "EventSource \<Rightarrow> EventSource" where
  "teardown es =
     (let es1 = emit ''disconnected'' NoArgument es;
          es2 = es1\<lparr>readyState := DISCONNECTED\<rparr>
      in es2\<lparr>backoffPending := True\<rparr>)"

text \<open>\<open>connect\<close> after the \<open>await\<close>: the promise of \<open>undici.stream\<close> has resolved
  (\<open>None\<close>) or rejected with an error, and the request is no longer pending. In the
  \<open>catch\<close> block \<open>this.emit('error', err)\<close> throws \<open>err\<close> when no listener for \<open>error\<close>
  is attached: the rest of \<open>connect\<close> is then not run, and the promise that \<open>connect\<close>
  returned rejects with \<open>err\<close>. \<open>settle\<close> is the instance afterwards, \<open>unhandled\<close> the
  error of that rejection.\<close>

definition settle :: "failure option \<Rightarrow> EventSource \<Rightarrow> EventSource" where
  "settle outcome es =
     (let es0 = es\<lparr>inflight := inflight es - 1\<rparr> in
      case outcome of
        None \<Rightarrow> teardown es0
      | Some err \<Rightarrow>
          if errorListener es0 then teardown (emit ''error'' (Failure err) es0)
          else es0)"

definition unhandled :: "failure option \<Rightarrow> EventSource \<Rightarrow> failure option" where
  "unhandled outcome es =
     (case outcome of
        None \<Rightarrow> None
      | Some err \<Rightarrow> if errorListener es then None else Some err)"

text \<open>\<open>resetHeartbeatTimeout(callback)\<close>, where the callback destroys the stream of
  request \<open>target\<close>. Returns whether a mark-alive function was returned (with an
  interval already set, the method returns \<open>undefined\<close>).\<close>

definition resetHeartbeatTimeout :: "nat \<Rightarrow> EventSource \<Rightarrow> EventSource \<times> bool" where
  "resetHeartbeatTimeout target es =
     (if heartbeatInterval es \<noteq> None then (es, False)
      else (es\<lparr>heartbeatInterval := Some target\<rparr>, True))"

text \<open>One run of the interval's function at time \<open>now\<close>. \<open>this.lastHeartbeat\<close> is
  \<open>undefined\<close> until the first chunk, and \<open>undefined > n\<close> is false.\<close>

definition heartbeat_tick :: "int \<Rightarrow> EventSource \<Rightarrow> EventSource" where
  "heartbeat_tick now es =
     (case heartbeatInterval es of
        None \<Rightarrow> es
      | Some target \<Rightarrow>
          if (case lastHeartbeat es of
                Some t \<Rightarrow> t > now - heartbeatTimeout es
              | None \<Rightarrow> False)
          then es
          else es\<lparr>heartbeatInterval := None,
                  destroyed := destroyed es @ [(target, NoHeartbeat (heartbeatTimeout es))]\<rparr>)"

text \<open>\<open>contentType.includes('text/event-stream')\<close>.\<close>

fun includes_str :: "string \<Rightarrow> string \<Rightarrow> bool" where
  "includes_str [] p = (p = [])"
| "includes_str (c # cs) p = (take (length p) (c # cs) = p \<or> includes_str cs p)"

definition new_Stream :: "bool \<Rightarrow> Stream" where
  "new_Stream hb =
     \<lparr>eventId = None, eventName = Some [], eventData = [], buffer = None,
      discardTrailingNewline = False, heartbeat = hb\<rparr>"

text \<open>\<open>handleResponse({statusCode, headers})\<close>, with \<open>headers['content-type']\<close> as an
  option. A \<open>throw\<close> is \<open>Inl\<close>; otherwise the state and the closure of the new
  writable are returned. \<open>backoff.reset()\<close> also stops a running delay.\<close>

definition handleResponse ::
  "int \<Rightarrow> string option \<Rightarrow> EventSource \<Rightarrow> failure + EventSource \<times> Stream" where
  "handleResponse statusCode contentType es =
     (if statusCode \<noteq> 200 then Inl (ResponseNotOK statusCode)
      else case contentType of
        None \<Rightarrow> Inl TypeError
      | Some ct \<Rightarrow>
          if \<not> includes_str ct ''text/event-stream'' then Inl (WrongContentType ct)
          else
            let es1 = es\<lparr>backoffPending := False, backoffResets := backoffResets es + 1\<rparr>;
                armed = resetHeartbeatTimeout (length (requests es1)) es1;
                es2 = (fst armed)\<lparr>readyState := CONNECTED\<rparr>;
                es3 = emit ''connected'' NoArgument es2
            in Inr (es3, new_Stream (snd armed)))"

text \<open>The constructor: the fields, then \<open>this.connect()\<close>. \<open>this.heartbeatInterval\<close> and
  \<open>this.lastHeartbeat\<close> are not assigned and so \<open>undefined\<close>. A new emitter has no
  listener.\<close>

definition new_EventSource :: "int \<Rightarrow> EventSource" where
  "new_EventSource timeout =
     connect \<lparr>readyState = DISCONNECTED, lastEventId = None, heartbeatInterval = None,
              lastHeartbeat = None, heartbeatTimeout = timeout, emitted = [], requests = [],
              inflight = 0, backoffPending = False, backoffResets = 0, destroyed = [],
              errorListener = False, seen = []\<rparr>"

text \<open>
  What can happen to an instance, one event at a time (the program is single-threaded):
  a call of \<open>connect\<close> by the owner, the owner attaching a listener for \<open>error\<close>
  (\<open>on('error', ...)\<close>), the \<open>ready\<close> signal of the backoff policy, the
  response to the pending request, a chunk of the response, its end, an error of the
  transport, and a run of the heartbeat interval's function. The second component is the
  closure of the response stream being read, if any. An error thrown by
  \<open>handleResponse\<close> and a stream destroyed with an error both make the promise of
  \<open>undici.stream\<close> reject with that error.
\<close>

datatype occurrence =
    Connect
  | OnError
  | BackoffReady
  | Response int "string option"
  | Chunk int bytes
  | End
  | TransportError string
  | Tick int

fun step :: "occurrence \<Rightarrow> EventSource \<times> Stream option \<Rightarrow> EventSource \<times> Stream option" where
  "step Connect (es, w) = (connect es, w)"
| "step OnError (es, w) = (es\<lparr>errorListener := True\<rparr>, w)"
| "step BackoffReady (es, w) =
     (if backoffPending es then (connect (es\<lparr>backoffPending := False\<rparr>), w) else (es, w))"
| "step (Response statusCode contentType) (es, w) =
     (if readyState es = CONNECTING \<and> inflight es > 0 then
        case handleResponse statusCode contentType es of
          Inl err \<Rightarrow> (settle (Some err) es, None)
        | Inr (es', s) \<Rightarrow> (es', Some s)
      else (es, w))"
| "step (Chunk now chunk) (es, w) =
     (case w of
        None \<Rightarrow> (es, w)
      | Some s \<Rightarrow> (fst (writable_write now chunk (es, s)),
                   Some (snd (writable_write now chunk (es, s)))))"
| "step End (es, w) = (case w of None \<Rightarrow> (es, w) | Some s \<Rightarrow> (settle None es, None))"
| "step (TransportError e) (es, w) =
     (if inflight es > 0 then (settle (Some (TransportFailure e)) es, None) else (es, w))"
| "step (Tick now) (es, w) =
     (let es1 = heartbeat_tick now es in
      if heartbeatInterval es = Some (length (requests es)) \<and> heartbeatInterval es1 = None
           \<and> w \<noteq> None
      then (settle (Some (NoHeartbeat (heartbeatTimeout es))) es1, None)
      else (es1, w))"

fun steps :: "occurrence list \<Rightarrow> EventSource \<times> Stream option \<Rightarrow> EventSource \<times> Stream option" where
  "steps [] st = st"
| "steps (x # xs) st = steps xs (step x st)"

section \<open>The loop as a function of the unread bytes\<close>

text \<open>
  The same loop, read as a recursion on the bytes from \<open>position\<close> on (proved equal to
  \<open>parseLoop\<close> below). A line ends at the first carriage return or line feed;
  \<open>fieldLength_of\<close> is the index of its first colon, or \<open>-1\<close>; \<open>parse_line\<close> is
  \<open>parseEventStreamLine\<close> on a buffer holding that line alone.
\<close>

definition is_terminator :: "char \<Rightarrow> bool" where
  "is_terminator c = (c = CARRIAGE_RETURN_CHARACTER \<or> c = LINE_FEED_CHARACTER)"

definition fieldLength_of :: "bytes \<Rightarrow> int" where
  "fieldLength_of line =
     (if COLON_CHARACTER \<in> set line
      then int (length (takeWhile (\<lambda>c. c \<noteq> COLON_CHARACTER) line)) else - 1)"

definition parse_line :: "bytes \<Rightarrow> EventSource \<times> Stream \<Rightarrow> EventSource \<times> Stream" where
  "parse_line line st =
     parseEventStreamLine (line @ [LINE_FEED_CHARACTER]) 0 (fieldLength_of line)
       (int (length line)) st"

definition skip_line_feed :: "bool \<Rightarrow> bytes \<Rightarrow> bytes" where
  "skip_line_feed discard xs =
     (if discard \<and> xs \<noteq> [] \<and> hd xs = LINE_FEED_CHARACTER then tl xs else xs)"

function run :: "bytes \<Rightarrow> EventSource \<times> Stream \<Rightarrow> bytes \<times> EventSource \<times> Stream" where
  "run xs st =
     (if xs = [] then ([], st)
      else
        let xs1 = skip_line_feed (discardTrailingNewline (snd st)) xs in
        case dropWhile (\<lambda>c. \<not> is_terminator c) xs1 of
          [] \<Rightarrow> (xs1, fst st, (snd st)\<lparr>discardTrailingNewline := False\<rparr>)
        | t # rest \<Rightarrow>
            run rest
              (parse_line (takeWhile (\<lambda>c. \<not> is_terminator c) xs1)
                 (fst st, (snd st)\<lparr>discardTrailingNewline := (t = CARRIAGE_RETURN_CHARACTER)\<rparr>)))"
  by pat_completeness auto
termination
proof (relation "measure (\<lambda>(xs, st). length xs)", goal_cases)
  case 1
  show ?case by simp
next
  case (2 xs st xs1 t rest)
  have "length (dropWhile (\<lambda>c. \<not> is_terminator c) xs1) \<le> length xs1"
    by (rule length_dropWhile_le)
  moreover have "length xs1 \<le> length xs"
    using 2(2) by (simp add: skip_line_feed_def)
  ultimately show ?case using 2 by simp
qed

declare run.simps [simp del]


text \<open>The bytes a stream holds back between two deliveries, and the assignment that ends
  \<open>write\<close>: \<open>null\<close> when everything was consumed, the unconsumed tail otherwise.\<close>

definition retained :: "Stream \<Rightarrow> bytes" where
  "retained s = (case buffer s of Some b \<Rightarrow> b | None \<Rightarrow> [])"

definition retain :: "bytes \<Rightarrow> EventSource \<times> Stream \<Rightarrow> EventSource \<times> Stream" where
  "retain r st = (fst st, (snd st)\<lparr>buffer := (if r = [] then None else Some r)\<rparr>)"

text \<open>Two assignments used to state what the parser leaves alone.\<close>

abbreviation nt :: "char \<Rightarrow> bool" where "nt \<equiv> (\<lambda>c. \<not> is_terminator c)"

definition set_buffer :: "bytes option \<Rightarrow> EventSource \<times> Stream \<Rightarrow> EventSource \<times> Stream" where
  "set_buffer b st = (fst st, (snd st)\<lparr>buffer := b\<rparr>)"

definition set_alive :: "int option \<Rightarrow> EventSource \<times> Stream \<Rightarrow> EventSource \<times> Stream" where
  "set_alive h st = ((fst st)\<lparr>lastHeartbeat := h\<rparr>, snd st)"


definition set_discard :: "bool \<Rightarrow> EventSource \<times> Stream \<Rightarrow> EventSource \<times> Stream" where
  "set_discard d st = (fst st, (snd st)\<lparr>discardTrailingNewline := d\<rparr>)"

section \<open>Streams as lines with terminators\<close>

text \<open>
  The wire format as the specification words it: a stream is a sequence of lines, each
  ended by a line feed, a carriage return, or a carriage return and a line feed. A line
  holds neither of the two characters. The one sequence of bytes that can be read in two
  ways is a carriage return followed by a line feed: as one pair, or as a line ended by
  the carriage return followed by an empty line ended by the line feed. \<open>unambiguous\<close>
  leaves the second reading out.
\<close>

datatype terminator = LF | CR | CRLF

fun terminator_bytes :: "terminator \<Rightarrow> bytes" where
  "terminator_bytes LF = [LINE_FEED_CHARACTER]"
| "terminator_bytes CR = [CARRIAGE_RETURN_CHARACTER]"
| "terminator_bytes CRLF = [CARRIAGE_RETURN_CHARACTER, LINE_FEED_CHARACTER]"

fun encode :: "(bytes \<times> terminator) list \<Rightarrow> bytes" where
  "encode [] = []"
| "encode ((line, t) # rest) = line @ terminator_bytes t @ encode rest"

definition plain_line :: "bytes \<Rightarrow> bool" where
  "plain_line line = (\<forall>c\<in>set line. \<not> is_terminator c)"

definition begins_with_line_feed :: "(bytes \<times> terminator) list \<Rightarrow> bool" where
  "begins_with_line_feed ls = (case ls of [] \<Rightarrow> False | (line, t) # _ \<Rightarrow> line = [] \<and> t = LF)"

fun unambiguous :: "(bytes \<times> terminator) list \<Rightarrow> bool" where
  "unambiguous [] = True"
| "unambiguous ((line, t) # rest) =
     (\<not> (t = CR \<and> begins_with_line_feed rest) \<and> unambiguous rest)"

text \<open>The lines handed to \<open>parseEventStreamLine\<close>, one call per line.\<close>

fun parse_lines :: "bytes list \<Rightarrow> EventSource \<times> Stream \<Rightarrow> EventSource \<times> Stream" where
  "parse_lines [] st = st"
| "parse_lines (line # rest) st = parse_lines rest (parse_line line st)"

section \<open>Records\<close>

text \<open>
  A record as the specification words it: some lines that are not blank, then a blank
  line. The value of a \<open>data:\<close> line is what follows the colon, less one leading space;
  the data of the record is the values of its \<open>data:\<close> lines, each followed by a line
  feed, without the last line feed.
\<close>

definition record_bytes :: "bytes list \<Rightarrow> bytes" where
  "record_bytes ls = concat (map (\<lambda>l. l @ [LINE_FEED_CHARACTER]) ls) @ [LINE_FEED_CHARACTER]"

definition field_value :: "string \<Rightarrow> bytes \<Rightarrow> bytes option" where
  "field_value name line =
     (if take (length name + 1) line = name @ [COLON_CHARACTER]
      then Some (let v = drop (length name + 1) line
                 in if v \<noteq> [] \<and> hd v = SPACE_CHARACTER then tl v else v)
      else None)"

definition field_values :: "string \<Rightarrow> bytes list \<Rightarrow> bytes list" where
  "field_values name ls = List.map_filter (field_value name) ls"

definition joined_data :: "bytes list \<Rightarrow> bytes" where
  "joined_data ls =
     butlast (concat (map (\<lambda>v. v @ [LINE_FEED_CHARACTER]) (field_values ''data'' ls)))"

text \<open>The discard flag after a stream of lines, and the value of a field line whose
  first colon is at index \<open>k\<close>.\<close>

definition final_discard :: "bool \<Rightarrow> (bytes \<times> terminator) list \<Rightarrow> bool" where
  "final_discard d ls = (if ls = [] then d else snd (last ls) = CR)"

definition value_after :: "nat \<Rightarrow> bytes \<Rightarrow> bytes" where
  "value_after k line =
     (let v = drop (k + 1) line in if v \<noteq> [] \<and> hd v = SPACE_CHARACTER then tl v else v)"

section \<open>The earlier, fetch-based variant: \<open>EventSourceEvent\<close>\<close>

text \<open>
  The first half of the source file is an earlier variant of the client, which builds
  each event from the text of a whole record. Its constructor is kept here for
  comparison with \<open>parseEventStreamLine\<close>. \<open>split_regex\<close> is
  \<open>data.split(LINE_ENDING_REGEX)\<close>: the first alternative of the expression that
  matches wins, so every carriage return and every line feed is a separator of its own.
\<close>

fun split_regex :: "string \<Rightarrow> string list" where
  "split_regex [] = [[]]"
| "split_regex (c # cs) =
     (if c = CARRIAGE_RETURN_CHARACTER \<or> c = LINE_FEED_CHARACTER then [] # split_regex cs
      else case split_regex cs of
             [] \<Rightarrow> [[c]]
           | l # ls \<Rightarrow> (c # l) # ls)"

text \<open>\<open>line.indexOf(':')\<close>.\<close>

definition indexOf_colon :: "string \<Rightarrow> int" where
  "indexOf_colon line =
     (if COLON_CHARACTER \<in> set line
      then int (length (takeWhile (\<lambda>c. c \<noteq> COLON_CHARACTER) line)) else - 1)"

text \<open>The body of the \<open>for\<close> loop, on \<open>(eventId, eventName, eventData)\<close>.\<close>

definition event_line ::
  "string \<Rightarrow> string option \<times> string \<times> string \<Rightarrow> string option \<times> string \<times> string" where
  "event_line line acc =
     (let eventId = fst acc; eventName = fst (snd acc); eventData = snd (snd acc) in
      if take 1 line = [COLON_CHARACTER] then acc
      else
        let colonIndex = indexOf_colon line;
            fieldName = (if colonIndex > - 1 then take (nat colonIndex) line else line);
            fieldValue0 = (if colonIndex > - 1 then drop (nat (colonIndex + 1)) line else []);
            fieldValue = (if colonIndex > - 1 \<and> take 1 fieldValue0 = [SPACE_CHARACTER]
                          then drop 1 fieldValue0 else fieldValue0)
        in if fieldName = ''event'' then (eventId, fieldValue, eventData)
           else if fieldName = ''data''
           then (eventId, eventName, eventData @ fieldValue @ [LINE_FEED_CHARACTER])
           else if fieldName = ''id''
           then (if CHR 0x00 \<notin> set fieldValue then (Some fieldValue, eventName, eventData)
                 else acc)
           else acc)"

definition EventSourceEvent :: "string \<Rightarrow> event" where
  "EventSourceEvent data =
     (let acc = fold event_line (split_regex data) (None, [], [])
      in \<lparr>e_id = fst acc,
          e_name = Some (if fst (snd acc) = [] then ''message'' else fst (snd acc)),
          e_data = snd (snd acc)\<rparr>)"

section \<open>Auxiliary notions for the connection manager\<close>

text \<open>The instance without the fields that delivering a chunk can assign.\<close>

definition frame :: "EventSource \<Rightarrow> EventSource" where
  "frame es = es\<lparr>emitted := [], seen := [], lastEventId := None, lastHeartbeat := None\<rparr>"

text \<open>What holds of every state the instance can reach: at most one request is pending,
  none in state \<open>DISCONNECTED\<close>, and a response stream is being read only in state
  \<open>CONNECTED\<close>.\<close>

definition consistent :: "EventSource \<times> Stream option \<Rightarrow> bool" where
  "consistent st =
     (inflight (fst st) \<le> (if readyState (fst st) = DISCONNECTED then 0 else 1)
      \<and> (snd st \<noteq> None \<longrightarrow> readyState (fst st) = CONNECTED))"

text \<open>\<open>this.lastHeartbeat > Date.now() - this.options.heartbeatTimeout\<close>.\<close>

definition alive :: "int \<Rightarrow> EventSource \<Rightarrow> bool" where
  "alive now es =
     (case lastHeartbeat es of Some t \<Rightarrow> t > now - heartbeatTimeout es | None \<Rightarrow> False)"

section \<open>The scan of a line\<close>

text \<open>\<open>scanLine\<close> from \<open>position\<close> finds the first line terminator of the unread bytes
  and the first colon before it.\<close>

lemma byte_at_drop:
  "p + j < length buf \<Longrightarrow> byte_at buf (int p + int j) = Some (drop p buf ! j)"
  by (simp add: byte_at_def nat_add_distrib)

lemma byte_at_outside: "length buf \<le> i \<Longrightarrow> byte_at buf (int i) = None"
  by (simp add: byte_at_def)

lemma fieldLength_of_Nil [simp]: "fieldLength_of [] = - 1"
  by (simp add: fieldLength_of_def)

lemma fieldLength_of_neg: "fieldLength_of ys < 0 \<Longrightarrow> fieldLength_of ys = - 1"
  by (simp add: fieldLength_of_def split: if_splits)

lemma takeWhile_no_colon:
  "COLON_CHARACTER \<notin> set ys \<Longrightarrow> takeWhile (\<lambda>c. c \<noteq> COLON_CHARACTER) (ys @ zs) = ys @ takeWhile (\<lambda>c. c \<noteq> COLON_CHARACTER) zs"
  by (induction ys) auto

lemma takeWhile_colon:
  "COLON_CHARACTER \<in> set ys \<Longrightarrow> takeWhile (\<lambda>c. c \<noteq> COLON_CHARACTER) (ys @ zs) = takeWhile (\<lambda>c. c \<noteq> COLON_CHARACTER) ys"
  by (induction ys) auto

lemma fieldLength_of_snoc:
  "fieldLength_of (ys @ [c]) =
     (if fieldLength_of ys < 0 then (if c = COLON_CHARACTER then int (length ys) else - 1)
      else fieldLength_of ys)"
  by (auto simp: fieldLength_of_def takeWhile_no_colon takeWhile_colon)

lemma scanLine_done:
  "\<not> l < 0 \<Longrightarrow> scanLine buf bufferLength position bufferIndex l f d = (l, f, d)"
  by (subst scanLine.simps) simp

lemma scanLine_end:
  "\<not> bufferIndex < bufferLength \<Longrightarrow>
   scanLine buf bufferLength position bufferIndex l f d = (l, f, d)"
  by (subst scanLine.simps) simp

lemma scanLine_found:
  "bufferIndex < bufferLength \<Longrightarrow> byte_at buf bufferIndex = Some t \<Longrightarrow> is_terminator t \<Longrightarrow>
   position \<le> bufferIndex \<Longrightarrow>
   scanLine buf bufferLength position bufferIndex (- 1) f d =
     (bufferIndex - position, f, d \<or> t = CARRIAGE_RETURN_CHARACTER)"
  by (subst scanLine.simps) (auto simp: is_terminator_def Let_def scanLine_done)

lemma scanLine_step:
  "bufferIndex < bufferLength \<Longrightarrow> byte_at buf bufferIndex = Some c \<Longrightarrow> \<not> is_terminator c \<Longrightarrow>
   scanLine buf bufferLength position bufferIndex (- 1) f d =
     scanLine buf bufferLength position (bufferIndex + 1) (- 1)
       (if c = COLON_CHARACTER \<and> f < 0 then bufferIndex - position else f) d"
  by (subst scanLine.simps) (auto simp: is_terminator_def Let_def)


lemma scanLine_from:
  assumes "p \<le> length buf" and "xs = drop p buf" and "j \<le> length (takeWhile nt xs)"
  shows "scanLine buf (int (length buf)) (int p) (int p + int j) (- 1)
           (fieldLength_of (take j xs)) d =
         (case dropWhile nt xs of
            [] \<Rightarrow> (- 1, fieldLength_of xs, d)
          | t # rest \<Rightarrow> (int (length (takeWhile nt xs)),
                         fieldLength_of (takeWhile nt xs),
                         d \<or> t = CARRIAGE_RETURN_CHARACTER))"
  using assms(3)
proof (induction "length (takeWhile nt xs) - j" arbitrary: j)
  case 0
  define k where "k = length (takeWhile nt xs)"
  from 0 have jk: "j = k" by (simp add: k_def)
  show ?case
  proof (cases "dropWhile nt xs")
    case Nil
    have all: "takeWhile nt xs = xs" using Nil by (metis takeWhile_dropWhile_id append_Nil2)
    have kl: "k = length xs" using all by (metis k_def)
    have e: "\<not> int p + int j < int (length buf)" using jk kl assms(1,2) by simp
    have tj: "take j xs = xs" using jk kl by simp
    show ?thesis unfolding Nil list.case scanLine_end[OF e] tj ..
  next
    case (Cons t rest)
    have xs: "xs = takeWhile nt xs @ t # rest" using Cons by (metis takeWhile_dropWhile_id)
    have t: "is_terminator t" using Cons by (metis hd_dropWhile list.sel(1) list.distinct(1))
    have klt: "k < length xs" using xs k_def by (metis length_append length_Cons less_add_Suc1 add_Suc_right)
    have xk: "xs ! k = t" using xs k_def by (metis nth_append_length)
    have lt: "p + k < length buf" using klt assms(1,2) by simp
    have b: "byte_at buf (int p + int k) = Some t" using byte_at_drop[OF lt] xk assms(2) by simp
    have tk: "take k xs = takeWhile nt xs" using xs k_def by (metis append_eq_conv_conj)
    have lt': "int p + int k < int (length buf)" using lt by simp
    have "scanLine buf (int (length buf)) (int p) (int p + int k) (- 1) (fieldLength_of (take k xs)) d
       = (int k, fieldLength_of (take k xs), d \<or> t = CARRIAGE_RETURN_CHARACTER)"
      by (subst scanLine_found[OF lt' b t]) simp_all
    then show ?thesis unfolding Cons list.case jk using tk unfolding k_def by simp
  qed
next
  case (Suc m)
  define k where "k = length (takeWhile nt xs)"
  from Suc have jk: "j < k" by (simp add: k_def)
  have kle: "k \<le> length xs" by (simp add: k_def length_takeWhile_le)
  have lt: "p + j < length buf" using jk kle assms(1,2) by simp
  have "xs ! j = takeWhile nt xs ! j" using jk by (simp add: k_def takeWhile_nth)
  moreover have "takeWhile nt xs ! j \<in> set (takeWhile nt xs)" using jk by (simp add: k_def)
  ultimately have c: "nt (xs ! j)" by (metis set_takeWhileD)
  have b: "byte_at buf (int p + int j) = Some (xs ! j)" using byte_at_drop[OF lt] assms(2) by simp
  have tk: "take (Suc j) xs = take j xs @ [xs ! j]" using jk kle by (simp add: take_Suc_conv_app_nth)
  have lj: "length (take j xs) = j" using jk kle by simp
  have IH: "scanLine buf (int (length buf)) (int p) (int p + int (Suc j)) (- 1)
           (fieldLength_of (take (Suc j) xs)) d = 
         (case dropWhile nt xs of
            [] \<Rightarrow> (- 1, fieldLength_of xs, d)
          | t # rest \<Rightarrow> (int (length (takeWhile nt xs)),
                         fieldLength_of (takeWhile nt xs),
                         d \<or> t = CARRIAGE_RETURN_CHARACTER))"
    using Suc.hyps(1)[of "Suc j"] Suc.hyps(2) jk by (simp add: k_def)
  have f: "fieldLength_of (take (Suc j) xs) = (if xs ! j = COLON_CHARACTER \<and> fieldLength_of (take j xs) < 0 then int j else fieldLength_of (take j xs))"
    using lj by (auto simp: tk fieldLength_of_snoc dest: fieldLength_of_neg)
  have lt': "int p + int j < int (length buf)" using lt by simp
  have "scanLine buf (int (length buf)) (int p) (int p + int j) (- 1) (fieldLength_of (take j xs)) d
      = scanLine buf (int (length buf)) (int p) (int p + int (Suc j)) (- 1) (fieldLength_of (take (Suc j) xs)) d"
    by (subst scanLine_step[OF lt' b c]) (simp add: f add.commute add.left_commute)
  then show ?case using IH by simp
qed

lemma scanLine_closed:
  assumes "p \<le> length buf" and "xs = drop p buf"
  shows "scanLine buf (int (length buf)) (int p) (int p) (- 1) (- 1) d =
         (case dropWhile nt xs of
            [] \<Rightarrow> (- 1, fieldLength_of xs, d)
          | t # rest \<Rightarrow> (int (length (takeWhile nt xs)),
                         fieldLength_of (takeWhile nt xs),
                         d \<or> t = CARRIAGE_RETURN_CHARACTER))"
  using scanLine_from[OF assms, of 0 d] by simp

section \<open>\<open>parseEventStreamLine\<close> depends on the line alone\<close>

lemma slice_mid:
  "a \<le> b \<Longrightarrow> b \<le> length line \<Longrightarrow>
   slice (pre @ line @ post) (int (length pre) + int a) (int (length pre) + int b)
     = take (b - a) (drop a line)"
  by (simp add: slice_def slice_index_def Let_def nat_add_distrib min_def)

lemma slice_mid0:
  "a \<le> b \<Longrightarrow> b \<le> length line \<Longrightarrow>
   slice (line @ post) (int a) (int b) = take (b - a) (drop a line)"
  using slice_mid[of a b line "[]" post] by simp

lemma byte_at_mid:
  "a < length line \<Longrightarrow> byte_at (pre @ line @ post) (int (length pre) + int a) = Some (line ! a)"
  by (simp add: byte_at_def nat_add_distrib nth_append)

lemma byte_at_mid0:
  "a < length line \<Longrightarrow> byte_at (line @ post) (int a) = Some (line ! a)"
  using byte_at_mid[of a line "[]" post] by simp

lemma length_takeWhile_colon:
  "COLON_CHARACTER \<in> set line \<Longrightarrow> length (takeWhile (\<lambda>c. c \<noteq> COLON_CHARACTER) line) < length line"
  by (induction line) auto

lemma fieldLength_of_pos:
  assumes "0 \<le> fieldLength_of line"
  shows "nat (fieldLength_of line) < length line"
  using assms by (simp add: fieldLength_of_def length_takeWhile_colon split: if_splits)

lemma slice_local:
  assumes "0 \<le> a" "a \<le> b" "b \<le> int (length line)"
  shows "slice (pre @ line @ post) (int (length pre) + a) (int (length pre) + b)
           = take (nat b - nat a) (drop (nat a) line)"
  using slice_mid[of "nat a" "nat b" line pre post] assms by simp

lemma parseEventStreamLine_blank:
  "parseEventStreamLine buf p f 0 st = dispatch st"
  by (simp add: parseEventStreamLine_def)

lemma parseEventStreamLine_skip:
  "l \<noteq> 0 \<Longrightarrow> \<not> 0 < f \<Longrightarrow> parseEventStreamLine buf p f l st = st"
  by (simp add: parseEventStreamLine_def)

lemma parseEventStreamLine_field:
  "l \<noteq> 0 \<Longrightarrow> 0 < f \<Longrightarrow>
   parseEventStreamLine buf p f l st =
     store_field (slice buf p (p + f))
       (if byte_at buf (p + (f + 1)) \<noteq> Some SPACE_CHARACTER
        then slice buf (p + (f + 1)) (p + l) else slice buf (p + (f + 2)) (p + l)) st"
  by (simp add: parseEventStreamLine_def Let_def add.assoc)

lemma parseEventStreamLine_local:
  assumes "is_terminator t"
  shows "parseEventStreamLine (pre @ line @ t # post) (int (length pre)) (fieldLength_of line)
           (int (length line)) st = parse_line line st"
proof -
  consider (blank) "line = []" | (skip) "line \<noteq> []" "\<not> 0 < fieldLength_of line"
    | (field) "line \<noteq> []" "0 < fieldLength_of line" by blast
  then show ?thesis
  proof cases
    case blank
    then show ?thesis by (simp add: parse_line_def parseEventStreamLine_blank)
  next
    case skip
    then show ?thesis by (simp add: parse_line_def parseEventStreamLine_skip)
  next
    case field
    define k where "k = nat (fieldLength_of line)"
    define buf where "buf = pre @ line @ t # post"
    define buf0 where "buf0 = line @ [LINE_FEED_CHARACTER]"
    define p where "p = int (length pre)"
    have fk: "fieldLength_of line = int k" using field by (simp add: k_def)
    have klt: "k < length line" using fieldLength_of_pos[of line] field by (simp add: k_def)
    have l0: "int (length line) \<noteq> 0" using field by simp
    have n1: "nat (p + (int k + 1)) = length pre + (k + 1)" by (simp add: p_def)
    have n0: "nat (0 + (int k + 1)) = k + 1" by simp
    have sp: "byte_at buf (p + (int k + 1))
                = Some (if k + 1 < length line then line ! (k + 1) else t)"
      unfolding byte_at_def n1 buf_def using klt by (auto simp: nth_append p_def)
    have sp0: "byte_at buf0 (0 + (int k + 1))
                = Some (if k + 1 < length line then line ! (k + 1) else LINE_FEED_CHARACTER)"
      unfolding byte_at_def n0 buf0_def using klt by (auto simp: nth_append)
    have same: "(byte_at buf (p + (int k + 1)) \<noteq> Some SPACE_CHARACTER)
       = (byte_at buf0 (0 + (int k + 1)) \<noteq> Some SPACE_CHARACTER)"
      unfolding sp sp0 using assms by (auto simp: is_terminator_def)
    have inl: "\<not> byte_at buf0 (0 + (int k + 1)) \<noteq> Some SPACE_CHARACTER \<Longrightarrow> k + 2 \<le> length line"
      unfolding sp0 using klt by (auto split: if_splits)
    have s1: "slice buf (p + a) (p + b) = slice buf0 (0 + a) (0 + b)"
      if "0 \<le> a" "a \<le> b" "b \<le> int (length line)" for a b
      using slice_local[OF that, of pre "t # post"] slice_local[OF that, of "[]" "[LINE_FEED_CHARACTER]"]
      by (simp add: buf_def buf0_def p_def)
    have f: "slice buf p (p + int k) = slice buf0 0 (0 + int k)"
      using s1[of 0 "int k"] klt by simp
    have v1: "slice buf (p + (int k + 1)) (p + int (length line)) = slice buf0 (0 + (int k + 1)) (0 + int (length line))"
      by (rule s1) (use klt in simp_all)
    have v2: "slice buf (p + (int k + 2)) (p + int (length line)) = slice buf0 (0 + (int k + 2)) (0 + int (length line))"
      if "k + 2 \<le> length line"
      by (rule s1) (use that in simp_all)
    have "parseEventStreamLine buf p (int k) (int (length line)) st
        = parseEventStreamLine buf0 0 (int k) (int (length line)) st"
      unfolding parseEventStreamLine_field[OF l0 field(2)[unfolded fk]] same f v1
      using v2 inl by (cases "byte_at buf0 (0 + (int k + 1)) \<noteq> Some SPACE_CHARACTER") simp_all
    then show ?thesis by (simp add: parse_line_def fk buf_def buf0_def p_def)
  qed
qed

section \<open>The loop is the recursion on the unread bytes\<close>

lemma takeWhile_line:
  "\<forall>c\<in>set line. nt c \<Longrightarrow> is_terminator t \<Longrightarrow> takeWhile nt (line @ t # rest) = line"
  by (induction line) auto

lemma dropWhile_line:
  "\<forall>c\<in>set line. nt c \<Longrightarrow> is_terminator t \<Longrightarrow> dropWhile nt (line @ t # rest) = t # rest"
  by (induction line) auto

lemma dropWhile_tail: "\<forall>c\<in>set xs. nt c \<Longrightarrow> dropWhile nt xs = []"
  by (induction xs) auto

lemma line_cases:
  obtains (tail) "\<forall>c\<in>set xs. nt c"
  | (line) line t rest where "xs = line @ t # rest" "\<forall>c\<in>set line. nt c" "is_terminator t"
proof (cases "\<forall>c\<in>set xs. nt c")
  case True
  then show ?thesis by (rule tail)
next
  case False
  then have "\<exists>c\<in>set xs. is_terminator c" by blast
  then obtain line t rest where "xs = line @ t # rest" "is_terminator t" "\<forall>c\<in>set line. nt c"
    using split_list_first_prop[of xs is_terminator] by blast
  then show ?thesis using line by blast
qed

lemma run_Nil [simp]: "run [] st = ([], st)"
  by (subst run.simps) simp

lemma run_tail:
  assumes "xs \<noteq> []" and "\<forall>c\<in>set (skip_line_feed (discardTrailingNewline (snd st)) xs). nt c"
  shows "run xs st = (skip_line_feed (discardTrailingNewline (snd st)) xs, fst st,
                      (snd st)\<lparr>discardTrailingNewline := False\<rparr>)"
  by (subst run.simps) (simp add: assms(1) Let_def dropWhile_tail[OF assms(2)])

lemma run_line:
  assumes "xs \<noteq> []" and "skip_line_feed (discardTrailingNewline (snd st)) xs = line @ t # rest"
    and "\<forall>c\<in>set line. nt c" and "is_terminator t"
  shows "run xs st = run rest (parse_line line
           (fst st, (snd st)\<lparr>discardTrailingNewline := (t = CARRIAGE_RETURN_CHARACTER)\<rparr>))"
  by (subst run.simps)
     (simp add: assms(1,2) Let_def dropWhile_line[OF assms(3,4)] takeWhile_line[OF assms(3,4)])

lemma length_skip_line_feed: "length (skip_line_feed d xs) \<le> length xs"
  by (simp add: skip_line_feed_def)

lemma run_induct [case_names Nil Tail Line]:
  assumes "\<And>st. P [] st"
    and "\<And>xs st. xs \<noteq> [] \<Longrightarrow>
           \<forall>c\<in>set (skip_line_feed (discardTrailingNewline (snd st)) xs). nt c \<Longrightarrow> P xs st"
    and "\<And>xs st line t rest. xs \<noteq> [] \<Longrightarrow>
           skip_line_feed (discardTrailingNewline (snd st)) xs = line @ t # rest \<Longrightarrow>
           \<forall>c\<in>set line. nt c \<Longrightarrow> is_terminator t \<Longrightarrow>
           P rest (parse_line line
             (fst st, (snd st)\<lparr>discardTrailingNewline := (t = CARRIAGE_RETURN_CHARACTER)\<rparr>)) \<Longrightarrow>
           P xs st"
  shows "P xs st"
proof (induction "length xs" arbitrary: xs st rule: less_induct)
  case (less xs st)
  show ?case
  proof (cases "xs = []")
    case True
    then show ?thesis using assms(1) by simp
  next
    case False
    show ?thesis
    proof (cases "skip_line_feed (discardTrailingNewline (snd st)) xs" rule: line_cases)
      case tail
      show ?thesis by (rule assms(2)[OF False tail])
    next
      case (line line t rest)
      have "length rest < length xs"
        using length_skip_line_feed[of "discardTrailingNewline (snd st)" xs] line(1) by simp
      then show ?thesis by (intro assms(3)[OF False line] less)
    qed
  qed
qed

lemma skip_line_feed_drop:
  assumes "p < length buf"
  shows "skip_line_feed d (drop p buf) =
           drop (if d \<and> byte_at buf (int p) = Some LINE_FEED_CHARACTER then p + 1 else p) buf"
proof -
  have "drop p buf \<noteq> []" using assms by simp
  moreover have "hd (drop p buf) = buf ! p" using assms by (simp add: hd_drop_conv_nth)
  moreover have "tl (drop p buf) = drop (p + 1) buf" by (simp add: drop_Suc tl_drop)
  moreover have "byte_at buf (int p) = Some (buf ! p)" using assms by (simp add: byte_at_def)
  ultimately show ?thesis by (simp add: skip_line_feed_def)
qed

lemma parseLoop_run:
  "xs = drop p buf \<Longrightarrow> p \<le> length buf \<Longrightarrow>
   parseLoop buf (int (length buf)) (int p) st =
     (int (length buf) - int (length (fst (run xs st))), snd (run xs st))"
proof (induction xs st arbitrary: p rule: run_induct)
  case (Nil st)
  then have "p = length buf" by simp
  then show ?case by (subst parseLoop.simps) simp
next
  case (Tail xs st)
  define es where "es = fst st"
  define s where "s = snd st"
  define p1 where "p1 = (if discardTrailingNewline s \<and> byte_at buf (int p) = Some LINE_FEED_CHARACTER then p + 1 else p)"
  define xs1 where "xs1 = skip_line_feed (discardTrailingNewline s) xs"
  define s1 where "s1 = s\<lparr>discardTrailingNewline := False\<rparr>"
  have plt: "p < length buf" using Tail(1,3,4) by (cases "p = length buf") auto
  have x1: "xs1 = drop p1 buf" using skip_line_feed_drop[OF plt] Tail(3) by (simp add: xs1_def p1_def)
  have p1le: "p1 \<le> length buf" using plt by (simp add: p1_def)
  have pos1: "(if discardTrailingNewline s \<and> byte_at buf (int p) = Some LINE_FEED_CHARACTER
               then int p + 1 else int p) = int p1"
    by (simp add: p1_def)
  have s1': "(if discardTrailingNewline s then s\<lparr>discardTrailingNewline := False\<rparr> else s) = s1"
    by (cases "discardTrailingNewline s") (simp_all add: s1_def)
  have ds1: "discardTrailingNewline s1 = False" by (simp add: s1_def)
  have s1s1: "s1\<lparr>discardTrailingNewline := False\<rparr> = s1" by (simp add: s1_def)
  have lt: "int p < int (length buf)" using plt by simp
  have unf: "parseLoop buf (int (length buf)) (int p) st =
     (let found = scanLine buf (int (length buf)) (int p1) (int p1) (- 1) (- 1) False;
          s2 = s1\<lparr>discardTrailingNewline := snd (snd found)\<rparr>
      in if fst found < 0 then (int p1, es, s2)
         else parseLoop buf (int (length buf)) (int p1 + fst found + 1)
                (parseEventStreamLine buf (int p1) (fst (snd found)) (fst found) (es, s2)))"
    apply (subst parseLoop.simps)
    apply (simp only: lt if_True Let_def es_def[symmetric] s_def[symmetric] pos1 s1' ds1)
    done
  have dw: "dropWhile nt xs1 = []" using Tail(2) by (simp add: dropWhile_tail xs1_def s_def)
  have len: "length xs1 = length buf - p1" using x1 by simp
  show ?case
    unfolding unf scanLine_closed[OF p1le x1, of False] dw
      run_tail[OF Tail(1,2)]
    using p1le len by (simp add: s1s1 xs1_def s_def es_def s1_def)
next
  case (Line xs st line t rest)
  define es where "es = fst st"
  define s where "s = snd st"
  define p1 where "p1 = (if discardTrailingNewline s \<and> byte_at buf (int p) = Some LINE_FEED_CHARACTER then p + 1 else p)"
  define xs1 where "xs1 = skip_line_feed (discardTrailingNewline s) xs"
  define s1 where "s1 = s\<lparr>discardTrailingNewline := False\<rparr>"
  have plt: "p < length buf" using Line(1,6,7) by (cases "p = length buf") auto
  have x1: "xs1 = drop p1 buf" using skip_line_feed_drop[OF plt] Line(6) by (simp add: xs1_def p1_def)
  have p1le: "p1 \<le> length buf" using plt by (simp add: p1_def)
  have pos1: "(if discardTrailingNewline s \<and> byte_at buf (int p) = Some LINE_FEED_CHARACTER
               then int p + 1 else int p) = int p1"
    by (simp add: p1_def)
  have s1': "(if discardTrailingNewline s then s\<lparr>discardTrailingNewline := False\<rparr> else s) = s1"
    by (cases "discardTrailingNewline s") (simp_all add: s1_def)
  have ds1: "discardTrailingNewline s1 = False" by (simp add: s1_def)
  have lt: "int p < int (length buf)" using plt by simp
  have unf: "parseLoop buf (int (length buf)) (int p) st =
     (let found = scanLine buf (int (length buf)) (int p1) (int p1) (- 1) (- 1) False;
          s2 = s1\<lparr>discardTrailingNewline := snd (snd found)\<rparr>
      in if fst found < 0 then (int p1, es, s2)
         else parseLoop buf (int (length buf)) (int p1 + fst found + 1)
                (parseEventStreamLine buf (int p1) (fst (snd found)) (fst found) (es, s2)))"
    apply (subst parseLoop.simps)
    apply (simp only: lt if_True Let_def es_def[symmetric] s_def[symmetric] pos1 s1' ds1)
    done
  have xs1: "xs1 = line @ t # rest" using Line(2) by (simp add: xs1_def s_def)
  have dw: "dropWhile nt xs1 = t # rest" and tw: "takeWhile nt xs1 = line"
    unfolding xs1 using Line(3,4) by (simp_all add: dropWhile_line takeWhile_line)
  have buf: "buf = take p1 buf @ line @ t # rest" unfolding xs1[symmetric] x1 by simp
  have lp: "int (length (take p1 buf)) = int p1" using p1le by simp
  have loc: "parseEventStreamLine buf (int p1) (fieldLength_of line) (int (length line)) st' = parse_line line st'" for st'
    using parseEventStreamLine_local[OF Line(4), of "take p1 buf" line rest st'] buf lp by simp
  define p' where "p' = p1 + length line + 1"
  have "drop p' buf = drop (length line + 1) (drop p1 buf)" by (simp add: p'_def add.commute)
  also have "\<dots> = drop (length line + 1) (line @ t # rest)" using x1 xs1 by simp
  also have "\<dots> = rest" by simp
  finally have r: "rest = drop p' buf" by simp
  have p'le: "p' \<le> length buf" using arg_cong[OF buf, of length] p1le by (simp add: p'_def)
  have ip: "int p1 + int (length line) + 1 = int p'" by (simp add: p'_def)
  have s1u: "s1\<lparr>discardTrailingNewline := b\<rparr> = s\<lparr>discardTrailingNewline := b\<rparr>" for b
    by (simp add: s1_def)
  note IH = Line(5)[OF r p'le, folded es_def s_def]
  show ?case
    unfolding unf scanLine_closed[OF p1le x1, of False] dw tw
      run_line[OF Line(1,2,3,4), folded s_def es_def] list.case Let_def fst_conv snd_conv
    apply (simp only: loc s1u ip)
    apply (simp add: IH)
    done
qed

subsection \<open>Fields the parser passes through\<close>

lemma dispatch_buffer:
  "dispatch (es, s\<lparr>buffer := b\<rparr>) = (fst (dispatch (es, s)), (snd (dispatch (es, s)))\<lparr>buffer := b\<rparr>)"
  by (simp add: dispatch_def Let_def split: option.splits)

lemma store_field_buffer:
  "store_field f v (es, s\<lparr>buffer := b\<rparr>) = (fst (store_field f v (es, s)), (snd (store_field f v (es, s)))\<lparr>buffer := b\<rparr>)"
  by (simp add: store_field_def Let_def)

lemma parseEventStreamLine_buffer:
  "parseEventStreamLine buf p f l (es, s\<lparr>buffer := b\<rparr>) =
     (fst (parseEventStreamLine buf p f l (es, s)), (snd (parseEventStreamLine buf p f l (es, s)))\<lparr>buffer := b\<rparr>)"
  by (simp add: parseEventStreamLine_def Let_def dispatch_buffer store_field_buffer)

lemma parse_line_buffer:
  "parse_line line (es, s\<lparr>buffer := b\<rparr>) =
     (fst (parse_line line (es, s)), (snd (parse_line line (es, s)))\<lparr>buffer := b\<rparr>)"
  by (simp add: parse_line_def parseEventStreamLine_buffer)

lemma dispatch_discard:
  "discardTrailingNewline (snd (dispatch st)) = discardTrailingNewline (snd st)"
  by (simp add: dispatch_def Let_def split: option.splits prod.splits)

lemma store_field_discard:
  "discardTrailingNewline (snd (store_field f v st)) = discardTrailingNewline (snd st)"
  by (simp add: store_field_def Let_def)

lemma parseEventStreamLine_discard:
  "discardTrailingNewline (snd (parseEventStreamLine buf p f l st)) = discardTrailingNewline (snd st)"
  by (simp add: parseEventStreamLine_def Let_def dispatch_discard store_field_discard)

lemma parse_line_discard:
  "discardTrailingNewline (snd (parse_line line st)) = discardTrailingNewline (snd st)"
  by (simp add: parse_line_def parseEventStreamLine_discard)


lemma set_buffer_simps [simp]:
  "fst (set_buffer b st) = fst st"
  "discardTrailingNewline (snd (set_buffer b st)) = discardTrailingNewline (snd st)"
  "buffer (snd (set_buffer b st)) = b"
  "set_buffer b (set_buffer b' st) = set_buffer b st"
  by (simp_all add: set_buffer_def)

lemma parse_line_set_buffer:
  "parse_line line (set_buffer b st) = set_buffer b (parse_line line st)"
  using parse_line_buffer[where line=line and es="fst st" and s="snd st" and b=b] by (simp add: set_buffer_def)

lemma set_buffer_discard:
  "(fst (set_buffer b st), (snd (set_buffer b st))\<lparr>discardTrailingNewline := d\<rparr>)
     = set_buffer b (fst st, (snd st)\<lparr>discardTrailingNewline := d\<rparr>)"
  by (simp add: set_buffer_def)

lemma run_set_buffer:
  "run xs (set_buffer b st) = (fst (run xs st), set_buffer b (snd (run xs st)))"
proof (induction xs st rule: run_induct)
  case (Nil st)
  then show ?case by simp
next
  case (Tail xs st)
  have t: "\<forall>c\<in>set (skip_line_feed (discardTrailingNewline (snd (set_buffer b st))) xs). nt c"
    using Tail(2) by simp
  show ?case unfolding run_tail[OF Tail(1) t] run_tail[OF Tail(1,2)]
    by (simp add: set_buffer_def)
next
  case (Line xs st line t rest)
  have l: "skip_line_feed (discardTrailingNewline (snd (set_buffer b st))) xs = line @ t # rest"
    using Line(2) by simp
  show ?case unfolding run_line[OF Line(1) l Line(3,4)] run_line[OF Line(1,2,3,4)]
    set_buffer_discard parse_line_set_buffer by (rule Line(5))
qed

subsection \<open>What is retained is the unterminated tail\<close>

lemma skip_line_feed_suffix: "\<exists>pre. xs = pre @ skip_line_feed d xs"
proof (cases "d \<and> xs \<noteq> [] \<and> hd xs = LINE_FEED_CHARACTER")
  case True
  then have "xs = [hd xs] @ skip_line_feed d xs" by (cases xs) (simp_all add: skip_line_feed_def)
  then show ?thesis by blast
next
  case False
  then have "xs = [] @ skip_line_feed d xs" by (auto simp: skip_line_feed_def)
  then show ?thesis by blast
qed

lemma run_suffix: "\<exists>pre. xs = pre @ fst (run xs st)"
proof (induction xs st rule: run_induct)
  case (Nil st)
  then show ?case by simp
next
  case (Tail xs st)
  show ?case unfolding run_tail[OF Tail(1,2)] using skip_line_feed_suffix by simp
next
  case (Line xs st line t rest)
  obtain pre where pre: "xs = pre @ skip_line_feed (discardTrailingNewline (snd st)) xs"
    using skip_line_feed_suffix by blast
  from Line(5) obtain pre' where "rest = pre' @ fst (run xs st)"
    unfolding run_line[OF Line(1,2,3,4)] by blast
  then have "xs = (pre @ line @ t # pre') @ fst (run xs st)"
    using pre Line(2) by simp
  then show ?case by blast
qed

lemma run_drop: "drop (length xs - length (fst (run xs st))) xs = fst (run xs st)"
proof -
  obtain pre where "xs = pre @ fst (run xs st)" using run_suffix by blast
  then show ?thesis by (metis append_eq_conv_conj length_append add_diff_cancel_right')
qed

lemma run_length: "length (fst (run xs st)) \<le> length xs"
proof -
  obtain pre where "xs = pre @ fst (run xs st)" using run_suffix by blast
  then show ?thesis by (metis length_append le_add2)
qed

subsection \<open>\<open>consume\<close> is the list recursion on the retained bytes and the chunk\<close>

lemma run_buffer_kept: "buffer (snd (snd (run xs (set_buffer b st)))) = b"
  by (simp add: run_set_buffer)

lemma consume_run:
  "consume chunk st = retain (fst (run (retained (snd st) @ chunk) st))
                        (snd (run (retained (snd st) @ chunk) st))"
proof -
  define buf where "buf = retained (snd st) @ chunk"
  define r where "r = fst (run buf st)"
  define st' where "st' = snd (run buf st)"
  have b: "(case buffer (snd st) of Some b \<Rightarrow> b @ chunk | None \<Rightarrow> chunk) = buf"
    by (simp add: buf_def retained_def split: option.splits)
  have st0: "(fst st, (snd st)\<lparr>buffer := Some buf\<rparr>) = set_buffer (Some buf) st"
    by (simp add: set_buffer_def)
  have pl: "parseLoop buf (int (length buf)) 0 (set_buffer (Some buf) st)
      = (int (length buf) - int (length r), set_buffer (Some buf) st')"
    using parseLoop_run[of buf 0 buf "set_buffer (Some buf) st"]
    by (simp add: run_set_buffer r_def st'_def)
  have rl: "length r \<le> length buf" by (simp add: r_def run_length)
  have rd: "drop (length buf - length r) buf = r" by (simp add: r_def run_drop)
  have eq: "r = buf" if "\<not> length r < length buf"
    using rd rl that by simp
  have sl: "slice_from buf (int (length buf) - int (length r)) = r" if "length r < length buf"
    using rd that by (simp add: slice_from_def slice_index_def nat_diff_distrib)
  have pos: "(int (length buf) - int (length r) = int (length buf)) = (r = [])"
    "(0 < int (length buf) - int (length r)) = (length r < length buf)"
    by auto
  show ?thesis
    unfolding consume_def Let_def b st0 pl buf_def[symmetric] r_def[symmetric] st'_def[symmetric]
      fst_conv snd_conv pos
    using eq sl by (auto simp: retain_def set_buffer_def)
qed

subsection \<open>Delivering two chunks is delivering their concatenation\<close>

lemma skip_line_feed_append:
  "xs \<noteq> [] \<Longrightarrow> skip_line_feed d (xs @ ys) = skip_line_feed d xs @ ys"
  by (cases xs) (simp_all add: skip_line_feed_def)

lemma skip_line_feed_False [simp]: "skip_line_feed False xs = xs"
  by (simp add: skip_line_feed_def)

lemma run_append:
  "run (xs @ ys) st = run (fst (run xs st) @ ys) (snd (run xs st))"
proof (induction xs st rule: run_induct)
  case (Nil st)
  then show ?case by simp
next
  case (Tail xs st)
  define xs1 where "xs1 = skip_line_feed (discardTrailingNewline (snd st)) xs"
  define st2 where "st2 = (fst st, (snd st)\<lparr>discardTrailingNewline := False\<rparr>)"
  have sk: "skip_line_feed (discardTrailingNewline (snd st)) (xs @ ys) = xs1 @ ys"
    using Tail(1) by (simp add: skip_line_feed_append xs1_def)
  have sk2: "skip_line_feed (discardTrailingNewline (snd st2)) (xs1 @ ys) = xs1 @ ys"
    by (simp add: st2_def)
  have ne: "xs @ ys \<noteq> []" using Tail(1) by simp
  have r: "run xs st = (xs1, st2)" unfolding run_tail[OF Tail(1,2)] by (simp add: xs1_def st2_def)
  show ?case
  proof (cases "xs1 @ ys = []")
    case True
    then have t: "\<forall>c\<in>set (skip_line_feed (discardTrailingNewline (snd st)) (xs @ ys)). nt c"
      using sk by simp
    show ?thesis unfolding r fst_conv snd_conv run_tail[OF ne t] sk using True by (simp add: st2_def)
  next
    case False
    show ?thesis
    proof (cases "xs1 @ ys" rule: line_cases)
      case tail
      have t1: "\<forall>c\<in>set (skip_line_feed (discardTrailingNewline (snd st)) (xs @ ys)). nt c"
        using sk tail by simp
      have t2: "\<forall>c\<in>set (skip_line_feed (discardTrailingNewline (snd st2)) (xs1 @ ys)). nt c"
        using sk2 tail by simp
      show ?thesis unfolding r fst_conv snd_conv run_tail[OF ne t1] run_tail[OF False t2] sk sk2
        by (simp add: st2_def)
    next
      case (line line t rest)
      have l1: "skip_line_feed (discardTrailingNewline (snd st)) (xs @ ys) = line @ t # rest"
        using sk line(1) by simp
      have l2: "skip_line_feed (discardTrailingNewline (snd st2)) (xs1 @ ys) = line @ t # rest"
        using sk2 line(1) by simp
      show ?thesis unfolding r fst_conv snd_conv run_line[OF ne l1 line(2,3)] run_line[OF False l2 line(2,3)]
        by (simp add: st2_def)
    qed
  qed
next
  case (Line xs st line t rest)
  have ne: "xs @ ys \<noteq> []" using Line(1) by simp
  have l: "skip_line_feed (discardTrailingNewline (snd st)) (xs @ ys) = line @ t # (rest @ ys)"
    using Line(1,2) by (simp add: skip_line_feed_append)
  show ?case unfolding run_line[OF ne l Line(3,4)] run_line[OF Line(1,2,3,4)] by (rule Line(5))
qed

lemma retain_set_buffer: "retain r st = set_buffer (if r = [] then None else Some r) st"
  by (simp add: retain_def set_buffer_def)

lemma retained_retain [simp]: "retained (snd (retain r st)) = r"
  by (simp add: retain_def retained_def)

lemma retain_retain [simp]: "retain r (retain r' st) = retain r st"
  by (simp add: retain_def)

lemma consume_append: "consume (a @ b) st = consume b (consume a st)"
proof -
  define r where "r = fst (run (retained (snd st) @ a) st)"
  define st' where "st' = snd (run (retained (snd st) @ a) st)"
  have c1: "consume a st = retain r st'" by (simp add: consume_run r_def st'_def)
  have "consume b (retain r st') =
          retain (fst (run (r @ b) (retain r st'))) (snd (run (r @ b) (retain r st')))"
    by (simp add: consume_run)
  also have "\<dots> = retain (fst (run (r @ b) st')) (snd (run (r @ b) st'))"
    unfolding retain_set_buffer[of r] run_set_buffer fst_conv snd_conv
    by (simp add: retain_set_buffer)
  also have "\<dots> = consume (a @ b) st"
    using run_append[of "retained (snd st) @ a" b st]
    by (simp add: consume_run r_def st'_def)
  finally show ?thesis using c1 by simp
qed


subsection \<open>The heartbeat mark\<close>

lemma set_alive_simps [simp]:
  "snd (set_alive h st) = snd st"
  "fst (set_alive h st) = (fst st)\<lparr>lastHeartbeat := h\<rparr>"
  "set_alive h (set_alive h' st) = set_alive h st"
  by (simp_all add: set_alive_def)

lemma dispatch_set_alive: "dispatch (set_alive h st) = set_alive h (dispatch st)"
  by (cases st) (simp add: dispatch_def set_alive_def emit_def Let_def split: option.splits)

lemma store_field_set_alive: "store_field f v (set_alive h st) = set_alive h (store_field f v st)"
  by (simp add: store_field_def set_alive_def Let_def)

lemma parseEventStreamLine_set_alive:
  "parseEventStreamLine buf p f l (set_alive h st) = set_alive h (parseEventStreamLine buf p f l st)"
  by (simp add: parseEventStreamLine_def Let_def dispatch_set_alive store_field_set_alive)

lemma parse_line_set_alive: "parse_line line (set_alive h st) = set_alive h (parse_line line st)"
  by (simp add: parse_line_def parseEventStreamLine_set_alive)

lemma set_alive_discard:
  "(fst (set_alive h st), (snd (set_alive h st))\<lparr>discardTrailingNewline := d\<rparr>)
     = set_alive h (fst st, (snd st)\<lparr>discardTrailingNewline := d\<rparr>)"
  by (simp add: set_alive_def)

lemma run_set_alive:
  "run xs (set_alive h st) = (fst (run xs st), set_alive h (snd (run xs st)))"
proof (induction xs st rule: run_induct)
  case (Nil st)
  then show ?case by simp
next
  case (Tail xs st)
  have t: "\<forall>c\<in>set (skip_line_feed (discardTrailingNewline (snd (set_alive h st))) xs). nt c"
    using Tail(2) by simp
  show ?case unfolding run_tail[OF Tail(1) t] run_tail[OF Tail(1,2)]
    by (simp add: set_alive_def)
next
  case (Line xs st line t rest)
  have l: "skip_line_feed (discardTrailingNewline (snd (set_alive h st))) xs = line @ t # rest"
    using Line(2) by simp
  show ?case unfolding run_line[OF Line(1) l Line(3,4)] run_line[OF Line(1,2,3,4)]
    set_alive_discard parse_line_set_alive by (rule Line(5))
qed

lemma retain_set_alive: "retain r (set_alive h st) = set_alive h (retain r st)"
  by (simp add: retain_def set_alive_def)

lemma consume_set_alive: "consume c (set_alive h st) = set_alive h (consume c st)"
  by (simp add: consume_run run_set_alive retain_set_alive)

lemma dispatch_heartbeat: "heartbeat (snd (dispatch st)) = heartbeat (snd st)"
  by (simp add: dispatch_def Let_def split: option.splits prod.splits)

lemma store_field_heartbeat: "heartbeat (snd (store_field f v st)) = heartbeat (snd st)"
  by (simp add: store_field_def Let_def)

lemma parse_line_heartbeat: "heartbeat (snd (parse_line line st)) = heartbeat (snd st)"
  by (simp add: parse_line_def parseEventStreamLine_def Let_def dispatch_heartbeat store_field_heartbeat)

lemma run_heartbeat: "heartbeat (snd (snd (run xs st))) = heartbeat (snd st)"
proof (induction xs st rule: run_induct)
  case (Nil st)
  then show ?case by simp
next
  case (Tail xs st)
  show ?case unfolding run_tail[OF Tail(1,2)] by simp
next
  case (Line xs st line t rest)
  show ?case unfolding run_line[OF Line(1,2,3,4)] using Line(5) by (simp add: parse_line_heartbeat)
qed

lemma consume_heartbeat: "heartbeat (snd (consume c st)) = heartbeat (snd st)"
  by (simp add: consume_run retain_def run_heartbeat)

lemma writable_write_consume:
  "writable_write now c st =
     (if heartbeat (snd st) then set_alive (Some now) (consume c st) else consume c st)"
  by (simp add: writable_write_def Let_def consume_heartbeat set_alive_def)

lemma writable_write_append:
  "writable_write t2 b (writable_write t1 a st) = writable_write t2 (a @ b) st"
  by (simp add: writable_write_consume consume_heartbeat consume_set_alive consume_append)

lemma write_all_single:
  "tcs \<noteq> [] \<Longrightarrow>
   write_all tcs st = writable_write (fst (last tcs)) (concat (map snd tcs)) st"
proof (induction tcs arbitrary: st)
  case Nil
  then show ?case by simp
next
  case (Cons tc tcs)
  obtain t c where tc: "tc = (t, c)" by (cases tc)
  show ?case
  proof (cases "tcs = []")
    case True
    then show ?thesis by (simp add: tc)
  next
    case False
    then show ?thesis using Cons.IH[OF False] by (simp add: tc writable_write_append)
  qed
qed

subsection \<open>The retained bytes in closed form\<close>

lemma takeWhile_before_terminator:
  "is_terminator t \<Longrightarrow> takeWhile nt (ys @ t # zs) = takeWhile nt ys"
  by (induction ys) auto

lemma takeWhile_rev_skip_line_feed:
  "takeWhile nt (rev (skip_line_feed d xs)) = takeWhile nt (rev xs)"
proof (cases "d \<and> xs \<noteq> [] \<and> hd xs = LINE_FEED_CHARACTER")
  case True
  then have xs: "xs = LINE_FEED_CHARACTER # skip_line_feed d xs"
    by (cases xs) (simp_all add: skip_line_feed_def)
  have "takeWhile nt (rev (skip_line_feed d xs) @ LINE_FEED_CHARACTER # []) = takeWhile nt (rev (skip_line_feed d xs))"
    by (rule takeWhile_before_terminator) (simp add: is_terminator_def)
  then show ?thesis using arg_cong[OF xs, of rev] by simp
next
  case False
  then show ?thesis by (auto simp: skip_line_feed_def)
qed

lemma run_rest: "fst (run xs st) = rev (takeWhile nt (rev xs))"
proof (induction xs st rule: run_induct)
  case (Nil st)
  then show ?case by simp
next
  case (Tail xs st)
  define xs1 where "xs1 = skip_line_feed (discardTrailingNewline (snd st)) xs"
  have "takeWhile nt (rev xs1) = rev xs1" using Tail(2) by (simp add: xs1_def takeWhile_eq_all_conv)
  then have "rev (takeWhile nt (rev xs)) = xs1"
    using takeWhile_rev_skip_line_feed[of "discardTrailingNewline (snd st)" xs] by (simp add: xs1_def)
  then show ?case unfolding run_tail[OF Tail(1,2)] by (simp add: xs1_def)
next
  case (Line xs st line t rest)
  have "takeWhile nt (rev xs) = takeWhile nt (rev (line @ t # rest))"
    using takeWhile_rev_skip_line_feed[of "discardTrailingNewline (snd st)" xs] Line(2) by simp
  also have "\<dots> = takeWhile nt (rev rest @ t # rev line)" by simp
  also have "\<dots> = takeWhile nt (rev rest)" by (rule takeWhile_before_terminator[OF Line(4)])
  finally show ?case unfolding run_line[OF Line(1,2,3,4)] using Line(5) by simp
qed

lemma consume_retained:
  "retained (snd (consume chunk st)) = rev (takeWhile nt (rev (retained (snd st) @ chunk)))"
  by (simp add: consume_run run_rest)

lemma write_retained:
  "retained (snd (writable_write now chunk st)) = rev (takeWhile nt (rev (retained (snd st) @ chunk)))"
  by (simp add: writable_write_consume consume_retained)

section \<open>Lines and records\<close>

lemma set_discard_simps [simp]:
  "fst (set_discard d st) = fst st"
  "discardTrailingNewline (snd (set_discard d st)) = d"
  "set_discard d (set_discard d' st) = set_discard d st"
  by (simp_all add: set_discard_def)

lemma set_discard_fold: "(fst st, (snd st)\<lparr>discardTrailingNewline := d\<rparr>) = set_discard d st"
  by (simp add: set_discard_def)

lemma set_discard_same: "discardTrailingNewline (snd st) = d \<Longrightarrow> set_discard d st = st"
  by (cases st) (simp add: set_discard_def)

lemma dispatch_set_discard: "dispatch (set_discard d st) = set_discard d (dispatch st)"
  by (cases st) (simp add: dispatch_def set_discard_def Let_def split: option.splits)

lemma store_field_set_discard:
  "store_field f v (set_discard d st) = set_discard d (store_field f v st)"
  by (simp add: store_field_def set_discard_def Let_def)

lemma parse_line_set_discard: "parse_line l (set_discard d st) = set_discard d (parse_line l st)"
  by (simp add: parse_line_def parseEventStreamLine_def Let_def dispatch_set_discard
        store_field_set_discard)

lemma parse_lines_set_discard:
  "parse_lines ls (set_discard d st) = set_discard d (parse_lines ls st)"
  by (induction ls arbitrary: st) (simp_all add: parse_line_set_discard)

lemma run_skip:
  assumes "discardTrailingNewline (snd st)"
  shows "run (LINE_FEED_CHARACTER # xs) st = run xs (set_discard False st)"
proof (cases "xs = []")
  case True
  have sk: "skip_line_feed (discardTrailingNewline (snd st)) [LINE_FEED_CHARACTER] = []"
    using assms by (simp add: skip_line_feed_def)
  have "run [LINE_FEED_CHARACTER] st = ([], set_discard False st)"
    by (subst run_tail) (simp_all add: sk set_discard_fold)
  then show ?thesis using True by simp
next
  case False
  have ne: "LINE_FEED_CHARACTER # xs \<noteq> []" by simp
  have sk: "skip_line_feed (discardTrailingNewline (snd st)) (LINE_FEED_CHARACTER # xs) = xs"
    using assms by (simp add: skip_line_feed_def)
  have sk2: "skip_line_feed (discardTrailingNewline (snd (set_discard False st))) xs = xs"
    by simp
  show ?thesis
  proof (cases xs rule: line_cases)
    case tail
    have t1: "\<forall>c\<in>set (skip_line_feed (discardTrailingNewline (snd st)) (LINE_FEED_CHARACTER # xs)). nt c"
      unfolding sk by (rule tail)
    have t2: "\<forall>c\<in>set (skip_line_feed (discardTrailingNewline (snd (set_discard False st))) xs). nt c"
      unfolding sk2 by (rule tail)
    show ?thesis unfolding run_tail[OF ne t1] run_tail[OF False t2] sk sk2 set_discard_fold by simp
  next
    case (line line t rest)
    have l1: "skip_line_feed (discardTrailingNewline (snd st)) (LINE_FEED_CHARACTER # xs) = line @ t # rest"
      unfolding sk by (rule line(1))
    have l2: "skip_line_feed (discardTrailingNewline (snd (set_discard False st))) xs = line @ t # rest"
      unfolding sk2 by (rule line(1))
    show ?thesis unfolding run_line[OF ne l1 line(2,3)] run_line[OF False l2 line(2,3)] set_discard_fold by simp
  qed
qed

lemma run_one_line:
  assumes "plain_line l" and "is_terminator t"
    and "discardTrailingNewline (snd st) \<longrightarrow> \<not> (l = [] \<and> t = LINE_FEED_CHARACTER)"
  shows "run (l @ t # rest) st =
           run rest (set_discard (t = CARRIAGE_RETURN_CHARACTER) (parse_line l st))"
proof -
  have ne: "l @ t # rest \<noteq> []" by simp
  have "hd (l @ t # rest) = LINE_FEED_CHARACTER \<Longrightarrow> l = [] \<and> t = LINE_FEED_CHARACTER"
    using assms(1) by (cases l) (auto simp: plain_line_def is_terminator_def)
  then have sk: "skip_line_feed (discardTrailingNewline (snd st)) (l @ t # rest) = l @ t # rest"
    using assms(3) by (auto simp: skip_line_feed_def)
  have pl: "\<forall>c\<in>set l. nt c" using assms(1) by (simp add: plain_line_def)
  show ?thesis unfolding run_line[OF ne sk pl assms(2)] set_discard_fold
    by (simp add: parse_line_set_discard)
qed


lemma run_encode:
  assumes "\<forall>l\<in>set (map fst ls). plain_line l" and "unambiguous ls"
    and "discardTrailingNewline (snd st) \<longrightarrow> \<not> begins_with_line_feed ls"
  shows "run (encode ls) st =
           ([], set_discard (final_discard (discardTrailingNewline (snd st)) ls)
                  (parse_lines (map fst ls) st))"
  using assms
proof (induction ls arbitrary: st)
  case Nil
  then show ?case by (simp add: final_discard_def set_discard_same)
next
  case (Cons lt ls)
  obtain l t where lt: "lt = (l, t)" by (cases lt)
  have pl: "plain_line l" using Cons.prems(1) by (simp add: lt)
  have pls: "\<forall>l\<in>set (map fst ls). plain_line l" using Cons.prems(1) by simp
  have un: "unambiguous ls" and cr: "t = CR \<Longrightarrow> \<not> begins_with_line_feed ls"
    using Cons.prems(2) by (auto simp: lt)
  have first: "discardTrailingNewline (snd st) \<longrightarrow> \<not> (l = [] \<and> t = LF)"
    using Cons.prems(3) by (simp add: begins_with_line_feed_def lt)
  have fin: "final_discard d' ls = final_discard d ((l, t) # ls)" if "d' = (if ls = [] then t = CR else d'')" for d d' d''
    using that by (auto simp: final_discard_def)
  show ?case
  proof (cases t)
    case LF
    define st1 where "st1 = set_discard False (parse_line l st)"
    have r: "run (encode (lt # ls)) st = run (encode ls) st1"
      using run_one_line[OF pl, of LINE_FEED_CHARACTER st "encode ls"] first
      by (simp add: lt LF is_terminator_def st1_def)
    have IH: "run (encode ls) st1 = ([], set_discard (final_discard False ls) (parse_lines (map fst ls) st1))"
      using Cons.IH[OF pls un, of st1] by (simp add: st1_def)
    show ?thesis unfolding r IH
      by (simp add: st1_def parse_lines_set_discard lt LF final_discard_def)
  next
    case CR
    define st1 where "st1 = set_discard True (parse_line l st)"
    have r: "run (encode (lt # ls)) st = run (encode ls) st1"
      using run_one_line[OF pl, of CARRIAGE_RETURN_CHARACTER st "encode ls"] first
      by (simp add: lt CR is_terminator_def st1_def)
    have IH: "run (encode ls) st1 = ([], set_discard (final_discard True ls) (parse_lines (map fst ls) st1))"
      using Cons.IH[OF pls un, of st1] cr[OF CR] by (simp add: st1_def)
    show ?thesis unfolding r IH
      by (simp add: st1_def parse_lines_set_discard lt CR final_discard_def)
  next
    case CRLF
    define st1 where "st1 = set_discard True (parse_line l st)"
    define st2 where "st2 = set_discard False (parse_line l st)"
    have "run (encode (lt # ls)) st = run (LINE_FEED_CHARACTER # encode ls) st1"
      using run_one_line[OF pl, of CARRIAGE_RETURN_CHARACTER st "LINE_FEED_CHARACTER # encode ls"] first
      by (simp add: lt CRLF is_terminator_def st1_def)
    also have "\<dots> = run (encode ls) st2"
      by (subst run_skip) (simp_all add: st1_def st2_def)
    finally have r: "run (encode (lt # ls)) st = run (encode ls) st2" .
    have IH: "run (encode ls) st2 = ([], set_discard (final_discard False ls) (parse_lines (map fst ls) st2))"
      using Cons.IH[OF pls un, of st2] by (simp add: st2_def)
    show ?thesis unfolding r IH
      by (simp add: st2_def parse_lines_set_discard lt CRLF final_discard_def)
  qed
qed



subsection \<open>A line as a field\<close>

lemma parse_line_blank: "parse_line [] st = dispatch st"
  by (simp add: parse_line_def parseEventStreamLine_blank)

lemma parse_line_skip: "l \<noteq> [] \<Longrightarrow> \<not> 0 < fieldLength_of l \<Longrightarrow> parse_line l st = st"
  by (simp add: parse_line_def parseEventStreamLine_skip)

lemma parse_line_field:
  assumes "l \<noteq> []" and "0 < fieldLength_of l"
  shows "parse_line l st =
           store_field (take (nat (fieldLength_of l)) l) (value_after (nat (fieldLength_of l)) l) st"
proof -
  define k where "k = nat (fieldLength_of l)"
  have fk: "fieldLength_of l = int k" using assms(2) by (simp add: k_def)
  have klt: "k < length l" using fieldLength_of_pos[of l] assms(2) by (simp add: k_def)
  have l0: "int (length l) \<noteq> 0" using assms(1) by simp
  have f: "slice (l @ [LINE_FEED_CHARACTER]) 0 (0 + int k) = take k l"
    using slice_mid0[of 0 k l "[LINE_FEED_CHARACTER]"] klt by simp
  have n0: "nat (0 + (int k + 1)) = k + 1" by simp
  have sp0: "byte_at (l @ [LINE_FEED_CHARACTER]) (0 + (int k + 1))
                = Some (if k + 1 < length l then l ! (k + 1) else LINE_FEED_CHARACTER)"
    unfolding byte_at_def n0 using klt by (auto simp: nth_append)
  have v1: "slice (l @ [LINE_FEED_CHARACTER]) (0 + (int k + 1)) (0 + int (length l)) = drop (k + 1) l"
    using slice_mid0[of "k + 1" "length l" l "[LINE_FEED_CHARACTER]"] klt by (simp add: add.commute)
  have v2: "slice (l @ [LINE_FEED_CHARACTER]) (0 + (int k + 2)) (0 + int (length l)) = drop (k + 2) l"
    if "k + 2 \<le> length l"
    using slice_mid0[of "k + 2" "length l" l "[LINE_FEED_CHARACTER]"] that by (simp add: add.commute)
  have hd: "hd (drop (k + 1) l) = l ! (k + 1)" if "k + 1 < length l"
    using that by (simp add: hd_drop_conv_nth)
  have tl: "tl (drop (k + 1) l) = drop (k + 2) l" by (simp add: drop_Suc tl_drop)
  have val: "(if byte_at (l @ [LINE_FEED_CHARACTER]) (0 + (int k + 1)) \<noteq> Some SPACE_CHARACTER
        then slice (l @ [LINE_FEED_CHARACTER]) (0 + (int k + 1)) (0 + int (length l))
        else slice (l @ [LINE_FEED_CHARACTER]) (0 + (int k + 2)) (0 + int (length l)))
       = value_after k l"
  proof (cases "k + 1 < length l")
    case True
    then show ?thesis unfolding sp0 v1 value_after_def Let_def
      using v2 hd[OF True] tl by auto
  next
    case False
    then have "drop (k + 1) l = []" by simp
    then show ?thesis unfolding sp0 v1 value_after_def Let_def using False by simp
  qed
  show ?thesis
    unfolding parse_line_def fk parseEventStreamLine_field[OF l0 assms(2)[unfolded fk]] f val
    by (simp add: k_def[symmetric])
qed

lemma fieldLength_of_prefix:
  assumes "COLON_CHARACTER \<notin> set name"
  shows "fieldLength_of (name @ COLON_CHARACTER # rest) = int (length name)"
  using assms by (simp add: fieldLength_of_def takeWhile_no_colon)

lemma fieldLength_of_colon:
  assumes "0 \<le> fieldLength_of l"
  shows "l = take (nat (fieldLength_of l)) l @ COLON_CHARACTER # drop (nat (fieldLength_of l) + 1) l"
proof -
  have c: "COLON_CHARACTER \<in> set l" using assms by (simp add: fieldLength_of_def split: if_splits)
  then have k: "nat (fieldLength_of l) = length (takeWhile (\<lambda>c. c \<noteq> COLON_CHARACTER) l)"
    by (simp add: fieldLength_of_def)
  have "dropWhile (\<lambda>c. c \<noteq> COLON_CHARACTER) l \<noteq> []" using c by (simp add: dropWhile_eq_Nil_conv)
  moreover have "hd (dropWhile (\<lambda>c. c \<noteq> COLON_CHARACTER) l) = COLON_CHARACTER"
    using hd_dropWhile[of "\<lambda>c. c \<noteq> COLON_CHARACTER" l] calculation by simp
  ultimately obtain rest where d: "dropWhile (\<lambda>c. c \<noteq> COLON_CHARACTER) l = COLON_CHARACTER # rest"
    by (cases "dropWhile (\<lambda>c. c \<noteq> COLON_CHARACTER) l") auto
  have l: "l = takeWhile (\<lambda>c. c \<noteq> COLON_CHARACTER) l @ COLON_CHARACTER # rest"
    using takeWhile_dropWhile_id[of "\<lambda>c. c \<noteq> COLON_CHARACTER" l] d by simp
  have t: "take (nat (fieldLength_of l)) l = takeWhile (\<lambda>c. c \<noteq> COLON_CHARACTER) l"
    unfolding k by (subst (2) l) simp
  have dr: "drop (nat (fieldLength_of l) + 1) l = rest"
    unfolding k by (subst l) simp
  show ?thesis unfolding t dr by (rule l)
qed

lemma field_value_iff:
  assumes "name \<noteq> []" and "COLON_CHARACTER \<notin> set name"
  shows "field_value name l = Some v \<longleftrightarrow>
           0 < fieldLength_of l \<and> take (nat (fieldLength_of l)) l = name
             \<and> v = value_after (nat (fieldLength_of l)) l"
proof
  assume "field_value name l = Some v"
  then have pre: "take (length name + 1) l = name @ [COLON_CHARACTER]"
    and v: "v = value_after (length name) l"
    by (auto simp: field_value_def value_after_def Let_def split: if_splits)
  have "l = (name @ [COLON_CHARACTER]) @ drop (length name + 1) l"
    unfolding pre[symmetric] by simp
  then have l: "l = name @ COLON_CHARACTER # drop (length name + 1) l" by simp
  have fl: "fieldLength_of l = int (length name)"
    by (subst l) (rule fieldLength_of_prefix[OF assms(2)])
  have "take (length name) l = name" by (subst l) simp
  then show "0 < fieldLength_of l \<and> take (nat (fieldLength_of l)) l = name
             \<and> v = value_after (nat (fieldLength_of l)) l"
    using fl v assms(1) by simp
next
  assume a: "0 < fieldLength_of l \<and> take (nat (fieldLength_of l)) l = name
             \<and> v = value_after (nat (fieldLength_of l)) l"
  define k where "k = nat (fieldLength_of l)"
  have l: "l = name @ COLON_CHARACTER # drop (k + 1) l"
    using fieldLength_of_colon[of l] a by (simp add: k_def)
  have klt: "k < length l" using fieldLength_of_pos[of l] a by (simp add: k_def)
  have kn: "k = length name" using a klt by (auto simp: k_def)
  have "take (length name + 1) l = name @ [COLON_CHARACTER]"
    by (subst l) simp
  then show "field_value name l = Some v"
    using a by (simp add: field_value_def value_after_def Let_def kn k_def[symmetric])
qed

subsection \<open>Streams given by their lines\<close>

lemma parse_lines_set_buffer:
  "parse_lines ls (set_buffer b st) = set_buffer b (parse_lines ls st)"
  by (induction ls arbitrary: st) (simp_all add: parse_line_set_buffer)

lemma set_buffer_same: "buffer (snd st) = b \<Longrightarrow> set_buffer b st = st"
  by (cases st) (simp add: set_buffer_def)

lemma set_buffer_set_discard: "set_buffer b (set_discard d st) = set_discard d (set_buffer b st)"
  by (simp add: set_buffer_def set_discard_def)

lemma parse_lines_buffer: "buffer (snd (parse_lines ls st)) = buffer (snd st)"
  using parse_lines_set_buffer[of ls "buffer (snd st)" st]
  by (simp add: set_buffer_same) (metis set_buffer_simps(3))

lemma consume_encode:
  assumes "\<forall>l\<in>set (map fst ls). plain_line l" and "unambiguous ls"
    and "buffer (snd st) = None" and "\<not> discardTrailingNewline (snd st)"
  shows "consume (encode ls) st =
           set_discard (ls \<noteq> [] \<and> snd (last ls) = CR) (parse_lines (map fst ls) st)"
proof -
  have r: "retained (snd st) = []" using assms(3) by (simp add: retained_def)
  have f: "final_discard False ls = (ls \<noteq> [] \<and> snd (last ls) = CR)"
    by (simp add: final_discard_def)
  have "buffer (snd (set_discard (ls \<noteq> [] \<and> snd (last ls) = CR) (parse_lines (map fst ls) st))) = None"
    using assms(3) by (simp add: set_discard_def parse_lines_buffer)
  then have "set_buffer None (set_discard (ls \<noteq> [] \<and> snd (last ls) = CR) (parse_lines (map fst ls) st))
      = set_discard (ls \<noteq> [] \<and> snd (last ls) = CR) (parse_lines (map fst ls) st)"
    by (rule set_buffer_same)
  then show ?thesis
    using run_encode[OF assms(1,2), of st] assms(4)
    by (simp add: consume_run r f retain_set_buffer)
qed

lemma write_all_encode:
  assumes "\<forall>l\<in>set (map fst ls). plain_line l" and "unambiguous ls"
    and "buffer (snd st) = None" and "\<not> discardTrailingNewline (snd st)"
    and "tcs \<noteq> []" and "concat (map snd tcs) = encode ls"
  shows "write_all tcs st =
           (if heartbeat (snd st)
            then set_alive (Some (fst (last tcs)))
                   (set_discard (ls \<noteq> [] \<and> snd (last ls) = CR) (parse_lines (map fst ls) st))
            else set_discard (ls \<noteq> [] \<and> snd (last ls) = CR) (parse_lines (map fst ls) st))"
  unfolding write_all_single[OF assms(5)] assms(6) writable_write_consume
    consume_encode[OF assms(1-4)] by (rule refl)

lemma store_field_fst: "fst (store_field f v st) = fst st"
  by (simp add: store_field_def Let_def)

lemma store_field_eventData:
  "eventData (snd (store_field f v st)) =
     eventData (snd st) @ (if f = ''data'' then v @ [LINE_FEED_CHARACTER] else [])"
  by (simp add: store_field_def Let_def)

lemma parse_line_nonblank_fst: "l \<noteq> [] \<Longrightarrow> fst (parse_line l st) = fst st"
  by (cases "0 < fieldLength_of l") (simp_all add: parse_line_field parse_line_skip store_field_fst)

lemma parse_line_eventData:
  assumes "l \<noteq> []"
  shows "eventData (snd (parse_line l st)) =
           eventData (snd st) @
             (case field_value ''data'' l of None \<Rightarrow> [] | Some v \<Rightarrow> v @ [LINE_FEED_CHARACTER])"
proof (cases "0 < fieldLength_of l \<and> take (nat (fieldLength_of l)) l = ''data''")
  case True
  then have "field_value ''data'' l = Some (value_after (nat (fieldLength_of l)) l)"
    by (subst field_value_iff) simp_all
  then show ?thesis using True assms by (simp add: parse_line_field store_field_eventData)
next
  case False
  have "field_value ''data'' l = None"
  proof (cases "field_value ''data'' l")
    case (Some v)
    then show ?thesis using False field_value_iff[of "''data''" l v] by simp
  qed simp
  then show ?thesis using False assms
    by (cases "0 < fieldLength_of l") (auto simp: parse_line_field store_field_eventData parse_line_skip)
qed

lemma parse_lines_nonblank_fst:
  "\<forall>l\<in>set ls. l \<noteq> [] \<Longrightarrow> fst (parse_lines ls st) = fst st"
  by (induction ls arbitrary: st) (simp_all add: parse_line_nonblank_fst)

lemma parse_lines_eventData:
  "\<forall>l\<in>set ls. l \<noteq> [] \<Longrightarrow>
   eventData (snd (parse_lines ls st)) =
     eventData (snd st) @ concat (map (\<lambda>v. v @ [LINE_FEED_CHARACTER]) (field_values ''data'' ls))"
  by (induction ls arbitrary: st)
     (auto simp: parse_line_eventData field_values_def map_filter_simps split: option.splits)

lemma parse_lines_append: "parse_lines (xs @ ys) st = parse_lines ys (parse_lines xs st)"
  by (induction xs arbitrary: st) simp_all

lemma dispatch_emitted:
  "emitted (fst (dispatch st)) =
     emitted (fst st) @
       (if eventData (snd st) = [] then []
        else [(or_message (eventName (snd st)),
               Record \<lparr>e_id = eventId (snd st), e_name = eventName (snd st),
                       e_data = butlast (eventData (snd st))\<rparr>)])"
  by (cases st) (simp add: dispatch_def Let_def emit_def split: option.splits)

lemma record_bytes_encode:
  "record_bytes ls = encode (map (\<lambda>l. (l, LF)) ls @ [([], LF)])"
  by (induction ls) (simp_all add: record_bytes_def)

lemma unambiguous_no_CR: "\<forall>lt\<in>set ls. snd lt \<noteq> CR \<Longrightarrow> unambiguous ls"
  by (induction ls) auto

lemma concat_values_Nil:
  "concat (map (\<lambda>v. v @ [LINE_FEED_CHARACTER]) vs) = [] \<longleftrightarrow> vs = []"
  by (cases vs) simp_all

lemma record_emitted:
  assumes "\<forall>l\<in>set ls. l \<noteq> [] \<and> plain_line l" and "eventData (snd st) = []"
    and "buffer (snd st) = None" and "\<not> discardTrailingNewline (snd st)"
  shows "emitted (fst (writable_write now (record_bytes ls) st)) =
           emitted (fst st) @
             (if field_values ''data'' ls = [] then []
              else [(or_message (eventName (snd (parse_lines ls st))),
                     Record \<lparr>e_id = eventId (snd (parse_lines ls st)),
                             e_name = eventName (snd (parse_lines ls st)),
                             e_data = joined_data ls\<rparr>)])"
proof -
  define lts where "lts = map (\<lambda>l. (l, LF)) ls @ [([], LF)]"
  have pl: "\<forall>l\<in>set (map fst lts). plain_line l" using assms(1) by (auto simp: lts_def plain_line_def)
  have un: "unambiguous lts" by (rule unambiguous_no_CR) (auto simp: lts_def)
  have m: "map fst lts = ls @ [[]]" by (simp add: lts_def comp_def)
  have nb: "\<forall>l\<in>set ls. l \<noteq> []" using assms(1) by simp
  have c: "consume (record_bytes ls) st = set_discard False (dispatch (parse_lines ls st))"
    unfolding record_bytes_encode lts_def[symmetric] consume_encode[OF pl un assms(3,4)] m
    by (simp add: lts_def parse_lines_append parse_line_blank)
  have e: "emitted (fst (writable_write now (record_bytes ls) st)) = emitted (fst (dispatch (parse_lines ls st)))"
    by (simp add: writable_write_consume c)
  show ?thesis unfolding e dispatch_emitted
    by (simp add: parse_lines_nonblank_fst[OF nb] parse_lines_eventData[OF nb] assms(2)
          concat_values_Nil joined_data_def)
qed

lemma new_EventSource_value:
  "new_EventSource timeout =
     \<lparr>readyState = CONNECTING, lastEventId = None, heartbeatInterval = None,
      lastHeartbeat = None, heartbeatTimeout = timeout,
      emitted = [(''connecting'', NoArgument)], requests = [[]],
      inflight = 1, backoffPending = False, backoffResets = 0, destroyed = [],
      errorListener = False, seen = [CONNECTING]\<rparr>"
  by (simp add: new_EventSource_def connect_def emit_def truthy_def Let_def)

section \<open>The connection manager, step by step\<close>

lemma dispatch_frame: "frame (fst (dispatch st)) = frame (fst st)"
  by (cases st) (simp add: dispatch_def frame_def emit_def Let_def split: option.splits)

lemma parse_line_frame: "frame (fst (parse_line l st)) = frame (fst st)"
  by (simp add: parse_line_def parseEventStreamLine_def Let_def dispatch_frame store_field_fst)

lemma run_frame: "frame (fst (snd (run xs st))) = frame (fst st)"
proof (induction xs st rule: run_induct)
  case (Nil st)
  then show ?case by simp
next
  case (Tail xs st)
  show ?case unfolding run_tail[OF Tail(1,2)] by simp
next
  case (Line xs st line t rest)
  show ?case unfolding run_line[OF Line(1,2,3,4)] using Line(5) by (simp add: parse_line_frame)
qed

lemma consume_frame: "frame (fst (consume c st)) = frame (fst st)"
  by (simp add: consume_run retain_def run_frame)

lemma writable_write_frame: "frame (fst (writable_write now c st)) = frame (fst st)"
  using consume_frame[of c st] by (auto simp: writable_write_consume set_alive_def frame_def)

lemma frame_fields:
  assumes "frame a = frame b"
  shows "readyState a = readyState b" "inflight a = inflight b" "requests a = requests b"
    "heartbeatInterval a = heartbeatInterval b" "backoffPending a = backoffPending b"
    "destroyed a = destroyed b" "heartbeatTimeout a = heartbeatTimeout b"
    "backoffResets a = backoffResets b"
  using arg_cong[OF assms, of readyState] arg_cong[OF assms, of inflight]
    arg_cong[OF assms, of requests] arg_cong[OF assms, of heartbeatInterval]
    arg_cong[OF assms, of backoffPending] arg_cong[OF assms, of destroyed]
    arg_cong[OF assms, of heartbeatTimeout] arg_cong[OF assms, of backoffResets]
  by (simp_all add: frame_def)

lemmas write_fields = frame_fields[OF writable_write_frame]

lemma connect_noop:
  "readyState es = CONNECTING \<or> readyState es = CONNECTED \<Longrightarrow> connect es = es"
  by (auto simp: connect_def)

lemma connect_opens:
  "readyState es = DISCONNECTED \<Longrightarrow>
   connect es =
     es\<lparr>readyState := CONNECTING, emitted := emitted es @ [(''connecting'', NoArgument)],
        seen := seen es @ [CONNECTING],
        requests := requests es @
          [case lastEventId es of None \<Rightarrow> []
           | Some v \<Rightarrow> if v = [] then [] else [(''Last-Event-ID'', v)]],
        inflight := inflight es + 1\<rparr>"
  by (auto simp: connect_def emit_def truthy_def Let_def split: option.splits)

lemma teardown_value:
  "teardown es =
     es\<lparr>emitted := emitted es @ [(''disconnected'', NoArgument)],
        seen := seen es @ [readyState es],
        readyState := DISCONNECTED, backoffPending := True\<rparr>"
  by (simp add: teardown_def emit_def Let_def)

lemma settle_value:
  "settle outcome es =
     (if outcome \<noteq> None \<and> \<not> errorListener es then es\<lparr>inflight := inflight es - 1\<rparr>
      else es\<lparr>emitted := emitted es @
                 (case outcome of None \<Rightarrow> [] | Some err \<Rightarrow> [(''error'', Failure err)])
                 @ [(''disconnected'', NoArgument)],
               seen := seen es @
                 (case outcome of None \<Rightarrow> [] | Some err \<Rightarrow> [readyState es])
                 @ [readyState es],
               readyState := DISCONNECTED, backoffPending := True,
               inflight := inflight es - 1\<rparr>)"
  by (cases outcome) (simp_all add: settle_def teardown_value emit_def Let_def)

lemma handleResponse_Inl:
  "handleResponse sc ct es = Inl err \<longleftrightarrow>
     (sc \<noteq> 200 \<and> err = ResponseNotOK sc)
     \<or> (sc = 200 \<and> ct = None \<and> err = TypeError)
     \<or> (sc = 200 \<and> (\<exists>c. ct = Some c \<and> \<not> includes_str c ''text/event-stream''
                          \<and> err = WrongContentType c))"
  by (auto simp: handleResponse_def Let_def split: option.splits)

lemma handleResponse_Inr:
  "handleResponse sc ct es = Inr (es', s) \<Longrightarrow>
     es' = es\<lparr>backoffPending := False, backoffResets := backoffResets es + 1,
              heartbeatInterval := (case heartbeatInterval es of None \<Rightarrow> Some (length (requests es))
                                    | Some k \<Rightarrow> Some k),
              readyState := CONNECTED,
              emitted := emitted es @ [(''connected'', NoArgument)],
              seen := seen es @ [CONNECTED]\<rparr>
     \<and> s = new_Stream (heartbeatInterval es = None)"
  by (auto simp: handleResponse_def Let_def resetHeartbeatTimeout_def emit_def
      split: option.splits if_splits)

lemma heartbeat_tick_value:
  "heartbeat_tick now es =
     (case heartbeatInterval es of
        None \<Rightarrow> es
      | Some k \<Rightarrow> if alive now es then es
                  else es\<lparr>heartbeatInterval := None,
                          destroyed := destroyed es @ [(k, NoHeartbeat (heartbeatTimeout es))]\<rparr>)"
  by (auto simp: heartbeat_tick_def alive_def split: option.splits)

lemma step_consistent: "consistent st \<Longrightarrow> consistent (step x st)"
proof -
  assume c: "consistent st"
  obtain es w where st: "st = (es, w)" by (cases st)
  show ?thesis
  proof (cases x)
    case Connect
    then show ?thesis using c
      by (cases "readyState es") (auto simp: st consistent_def connect_noop connect_opens)
  next
    case OnError
    then show ?thesis using c by (auto simp: st consistent_def)
  next
    case BackoffReady
    then show ?thesis using c
      by (cases "readyState es") (auto simp: st consistent_def connect_def emit_def Let_def)
  next
    case (Response sc ct)
    show ?thesis
    proof (cases "handleResponse sc ct es")
      case (Inl err)
      then show ?thesis using c by (auto simp: st Response consistent_def settle_value)
    next
      case (Inr r)
      obtain es' s where r: "r = (es', s)" by (cases r)
      show ?thesis using c handleResponse_Inr[OF Inr[unfolded r]]
        by (auto simp: st Response Inr r consistent_def)
    qed
  next
    case (Chunk now chunk)
    then show ?thesis using c
      by (cases w) (auto simp: st consistent_def write_fields)
  next
    case End
    then show ?thesis using c by (cases w) (auto simp: st consistent_def settle_value)
  next
    case (TransportError e)
    then show ?thesis using c by (auto simp: st consistent_def settle_value split: if_splits)
  next
    case (Tick now)
    then show ?thesis using c
      by (auto simp: st consistent_def settle_value heartbeat_tick_value Let_def
          split: option.splits if_splits)
  qed
qed

lemma steps_consistent: "consistent st \<Longrightarrow> consistent (steps xs st)"
  by (induction xs arbitrary: st) (simp_all add: step_consistent)

lemma new_consistent: "consistent (new_EventSource t, None)"
  by (simp add: consistent_def new_EventSource_value)

subsection \<open>Records and Last-Event-Id\<close>

lemma consume_record:
  assumes "\<forall>l\<in>set ls. plain_line l"
    and "buffer (snd st) = None" and "\<not> discardTrailingNewline (snd st)"
  shows "consume (record_bytes ls) st = set_discard False (dispatch (parse_lines ls st))"
proof -
  define lts where "lts = map (\<lambda>l. (l, LF)) ls @ [([], LF)]"
  have pl: "\<forall>l\<in>set (map fst lts). plain_line l" using assms(1) by (auto simp: lts_def plain_line_def)
  have un: "unambiguous lts" by (rule unambiguous_no_CR) (auto simp: lts_def)
  have m: "map fst lts = ls @ [[]]" by (simp add: lts_def comp_def)
  show ?thesis
    unfolding record_bytes_encode lts_def[symmetric] consume_encode[OF pl un assms(2,3)] m
    by (simp add: lts_def parse_lines_append parse_line_blank)
qed

lemma dispatch_lastEventId:
  "lastEventId (fst (dispatch st)) =
     (case eventId (snd st) of Some i \<Rightarrow> Some i | None \<Rightarrow> lastEventId (fst st))"
  by (cases st) (simp add: dispatch_def Let_def emit_def split: option.splits)

lemma store_field_eventId:
  "eventId (snd (store_field f v st)) = (if f = ''id'' then Some v else eventId (snd st))"
  by (simp add: store_field_def Let_def)

lemma parse_line_eventId:
  assumes "l \<noteq> []"
  shows "eventId (snd (parse_line l st)) =
           (case field_value ''id'' l of None \<Rightarrow> eventId (snd st) | Some v \<Rightarrow> Some v)"
proof (cases "0 < fieldLength_of l \<and> take (nat (fieldLength_of l)) l = ''id''")
  case True
  then have "field_value ''id'' l = Some (value_after (nat (fieldLength_of l)) l)"
    by (subst field_value_iff) simp_all
  then show ?thesis using True assms by (simp add: parse_line_field store_field_eventId)
next
  case False
  have "field_value ''id'' l = None"
  proof (cases "field_value ''id'' l")
    case (Some v)
    then show ?thesis using False field_value_iff[of "''id''" l v] by simp
  qed simp
  then show ?thesis using False assms
    by (cases "0 < fieldLength_of l") (auto simp: parse_line_field store_field_eventId parse_line_skip)
qed






lemma connect_heartbeatInterval: "heartbeatInterval (connect es) = heartbeatInterval es"
  by (simp add: connect_def emit_def Let_def)

subsection \<open>An error without a listener, and runs of the timer function without a timer\<close>

lemma error_without_listener_ends_the_subscription:
  "readyState (fst (steps [TransportError ''ECONNRESET''] (new_EventSource 30000, None))) = CONNECTING \<and>
   emitted (fst (steps [TransportError ''ECONNRESET''] (new_EventSource 30000, None)))
     = [(''connecting'', NoArgument)] \<and>
   backoffPending (fst (steps [TransportError ''ECONNRESET''] (new_EventSource 30000, None))) = False \<and>
   unhandled (Some (TransportFailure ''ECONNRESET'')) (new_EventSource 30000)
     = Some (TransportFailure ''ECONNRESET'') \<and>
   requests (fst (steps [TransportError ''ECONNRESET'', BackoffReady, Connect]
                    (new_EventSource 30000, None))) = [[]]"
  by code_simp

lemma ticks_without_timer:
  "heartbeatInterval (fst st) = None \<Longrightarrow> steps (map Tick ts) st = st"
proof (induction ts)
  case Nil
  then show ?case by simp
next
  case (Cons t ts)
  obtain es w where st: "st = (es, w)" by (cases st)
  have "step (Tick t) st = st" using Cons.prems by (simp add: st heartbeat_tick_value Let_def)
  then show ?case using Cons by simp
qed

subsection \<open>The earlier variant on two lines\<close>

lemma earlier_variant_ignores_id_with_NUL:
  "e_id (EventSourceEvent (''id:1'' @ [CHR 0x00])) = None"
  by code_simp

lemma earlier_variant_keeps_line_without_colon:
  "e_data (EventSourceEvent ''data'') = [LINE_FEED_CHARACTER]"
  by code_simp

section \<open>Chunk boundaries\<close>

text \<open>
  C1. However the bytes of a response are cut into chunks (one-byte chunks included),
  delivering the chunks one at a time leaves the instance and the stream in exactly the
  state that a single delivery of all the bytes, made at the time of the last chunk,
  leaves them in: the same emitted events in the same order, the same Last-Event-Id, the
  same pending record, the same retained buffer and the same discard flag. The retained
  buffer is the whole of what follows the last line terminator received, so no
  unconsumed byte is dropped between deliveries. This holds for every byte sequence and
  every starting state, not only for well-formed records.
\<close>

theorem chunking_independent:
  "tcs \<noteq> [] \<Longrightarrow>
   write_all tcs st = writable_write (fst (last tcs)) (concat (map snd tcs)) st \<and>
   retained (snd (write_all tcs st)) =
     rev (takeWhile (\<lambda>c. \<not> is_terminator c) (rev (retained (snd st) @ concat (map snd tcs))))"
  by (simp add: write_all_single write_retained)


theorem chunking_independent_witness:
  "[(1::int, ''data:a'' @ [CARRIAGE_RETURN_CHARACTER]),
    (2, [LINE_FEED_CHARACTER] @ ''data:b'' @ [LINE_FEED_CHARACTER, LINE_FEED_CHARACTER] @ ''da'')]
     \<noteq> [] \<and>
   write_all
     [(1::int, ''data:a'' @ [CARRIAGE_RETURN_CHARACTER]),
      (2, [LINE_FEED_CHARACTER] @ ''data:b'' @ [LINE_FEED_CHARACTER, LINE_FEED_CHARACTER] @ ''da'')]
     (new_EventSource 30000, new_Stream True) =
   writable_write 2
     (''data:a'' @ [CARRIAGE_RETURN_CHARACTER, LINE_FEED_CHARACTER] @ ''data:b''
        @ [LINE_FEED_CHARACTER, LINE_FEED_CHARACTER] @ ''da'')
     (new_EventSource 30000, new_Stream True) \<and>
   retained (snd (write_all
     [(1::int, ''data:a'' @ [CARRIAGE_RETURN_CHARACTER]),
      (2, [LINE_FEED_CHARACTER] @ ''data:b'' @ [LINE_FEED_CHARACTER, LINE_FEED_CHARACTER] @ ''da'')]
     (new_EventSource 30000, new_Stream True))) = ''da''"
proof (intro conjI)
  note th = chunking_independent
    [of "[(1::int, ''data:a'' @ [CARRIAGE_RETURN_CHARACTER]),
          (2, [LINE_FEED_CHARACTER] @ ''data:b'' @ [LINE_FEED_CHARACTER, LINE_FEED_CHARACTER] @ ''da'')]"
        "(new_EventSource 30000, new_Stream True)"]
  show "[(1::int, ''data:a'' @ [CARRIAGE_RETURN_CHARACTER]),
    (2, [LINE_FEED_CHARACTER] @ ''data:b'' @ [LINE_FEED_CHARACTER, LINE_FEED_CHARACTER] @ ''da'')]
     \<noteq> []" by simp
  show "write_all
     [(1::int, ''data:a'' @ [CARRIAGE_RETURN_CHARACTER]),
      (2, [LINE_FEED_CHARACTER] @ ''data:b'' @ [LINE_FEED_CHARACTER, LINE_FEED_CHARACTER] @ ''da'')]
     (new_EventSource 30000, new_Stream True) =
   writable_write 2
     (''data:a'' @ [CARRIAGE_RETURN_CHARACTER, LINE_FEED_CHARACTER] @ ''data:b''
        @ [LINE_FEED_CHARACTER, LINE_FEED_CHARACTER] @ ''da'')
     (new_EventSource 30000, new_Stream True)"
    using th by simp
  show "retained (snd (write_all
     [(1::int, ''data:a'' @ [CARRIAGE_RETURN_CHARACTER]),
      (2, [LINE_FEED_CHARACTER] @ ''data:b'' @ [LINE_FEED_CHARACTER, LINE_FEED_CHARACTER] @ ''da'')]
     (new_EventSource 30000, new_Stream True))) = ''da''"
    using th[THEN conjunct2] by (simp add: retained_def new_Stream_def is_terminator_def)
qed

section \<open>The data of a record\<close>

text \<open>
  C2. A record is some non-blank lines followed by a blank line. Delivered to a stream
  with no pending data, it emits no event when it has no \<open>data:\<close> line, and otherwise
  exactly one event, whose data is the values of its \<open>data:\<close> lines, each followed by a
  line feed, without the last line feed.
\<close>

theorem record_data_joined:
  assumes "\<forall>l\<in>set ls. l \<noteq> [] \<and> plain_line l" and "eventData (snd st) = []"
    and "buffer (snd st) = None" and "\<not> discardTrailingNewline (snd st)"
  shows "emitted (fst (writable_write now (record_bytes ls) st)) =
           emitted (fst st) @
             (if field_values ''data'' ls = [] then []
              else [(or_message (eventName (snd (parse_lines ls st))),
                     Record \<lparr>e_id = eventId (snd (parse_lines ls st)),
                             e_name = eventName (snd (parse_lines ls st)),
                             e_data = joined_data ls\<rparr>)])"
  by (rule record_emitted[OF assms])

theorem record_data_joined_witness:
  "eventData (snd (new_EventSource 30000, new_Stream True)) = [] \<and>
   buffer (snd (new_EventSource 30000, new_Stream True)) = None \<and>
   \<not> discardTrailingNewline (snd (new_EventSource 30000, new_Stream True)) \<and>
   record_bytes [''data:a'', ''data:b''] =
     ''data:a'' @ [LINE_FEED_CHARACTER] @ ''data:b'' @ [LINE_FEED_CHARACTER, LINE_FEED_CHARACTER] \<and>
   emitted (fst (writable_write 5 (record_bytes [''data:a'', ''data:b''])
                   (new_EventSource 30000, new_Stream True))) =
     emitted (new_EventSource 30000) @
       [(''message'',
         Record \<lparr>e_id = None, e_name = Some [], e_data = ''a'' @ [LINE_FEED_CHARACTER] @ ''b''\<rparr>)]"
proof -
  have h: "\<forall>l\<in>set [''data:a'', ''data:b'']. l \<noteq> [] \<and> plain_line l"
    by (simp add: plain_line_def is_terminator_def)
  have s: "eventData (snd (new_EventSource 30000, new_Stream True)) = []"
    "buffer (snd (new_EventSource 30000, new_Stream True)) = None"
    "\<not> discardTrailingNewline (snd (new_EventSource 30000, new_Stream True))"
    by (simp_all add: new_Stream_def)
  have v: "field_values ''data'' [''data:a'', ''data:b''] = [''a'', ''b'']"
    by (simp add: field_values_def field_value_def map_filter_simps)
  have j: "joined_data [''data:a'', ''data:b''] = ''a'' @ [LINE_FEED_CHARACTER] @ ''b''"
    by (simp add: joined_data_def v)
  have p: "snd (parse_lines [''data:a'', ''data:b''] (new_EventSource 30000, new_Stream True))
     = (new_Stream True)\<lparr>eventData := ''a'' @ [LINE_FEED_CHARACTER] @ ''b'' @ [LINE_FEED_CHARACTER]\<rparr>"
    by (simp add: parse_line_def parseEventStreamLine_def fieldLength_of_def slice_def
          slice_index_def byte_at_def store_field_def Let_def new_Stream_def)
  have r: "record_bytes [''data:a'', ''data:b''] =
     ''data:a'' @ [LINE_FEED_CHARACTER] @ ''data:b'' @ [LINE_FEED_CHARACTER, LINE_FEED_CHARACTER]"
    by (simp add: record_bytes_def)
  note th = record_data_joined[OF h s, of 5, unfolded v j p]
  show ?thesis
    using th h s r by (simp add: or_message_def new_Stream_def)
qed

section \<open>Line terminators\<close>

text \<open>
  C3. Take a stream of lines, each ended by a line feed, a carriage return or the pair,
  read in the one way its bytes allow. However the bytes are cut into chunks, also
  between the carriage return and the line feed of a pair, the parser hands exactly these
  lines to \<open>parseEventStreamLine\<close>, one call per line whatever its terminator: a pair
  ends one line and gives no blank line of its own. Afterwards nothing is retained, and
  the discard flag is set exactly when the last terminator was a lone carriage return.
\<close>

theorem line_terminators_uniform:
  assumes "\<forall>l\<in>set (map fst ls). plain_line l" and "unambiguous ls"
    and "buffer (snd st) = None" and "\<not> discardTrailingNewline (snd st)"
    and "tcs \<noteq> []" and "concat (map snd tcs) = encode ls"
  shows "emitted (fst (write_all tcs st)) = emitted (fst (parse_lines (map fst ls) st)) \<and>
         lastEventId (fst (write_all tcs st)) = lastEventId (fst (parse_lines (map fst ls) st)) \<and>
         eventId (snd (write_all tcs st)) = eventId (snd (parse_lines (map fst ls) st)) \<and>
         eventName (snd (write_all tcs st)) = eventName (snd (parse_lines (map fst ls) st)) \<and>
         eventData (snd (write_all tcs st)) = eventData (snd (parse_lines (map fst ls) st)) \<and>
         buffer (snd (write_all tcs st)) = None \<and>
         discardTrailingNewline (snd (write_all tcs st)) = (ls \<noteq> [] \<and> snd (last ls) = CR)"
  unfolding write_all_encode[OF assms]
  using assms(3) by (simp add: set_alive_def set_discard_def parse_lines_buffer)

theorem line_terminators_uniform_witness:
  "unambiguous [(''data:x'', CRLF), (''data:y'', CRLF), ([], CRLF)] \<and>
   buffer (snd (new_EventSource 30000, new_Stream True)) = None \<and>
   \<not> discardTrailingNewline (snd (new_EventSource 30000, new_Stream True)) \<and>
   [(1::int, ''data:x'' @ [CARRIAGE_RETURN_CHARACTER]),
    (2, [LINE_FEED_CHARACTER] @ ''data:y''
          @ [CARRIAGE_RETURN_CHARACTER, LINE_FEED_CHARACTER, CARRIAGE_RETURN_CHARACTER]),
    (3, [LINE_FEED_CHARACTER])] \<noteq> [] \<and>
   concat (map snd
     [(1::int, ''data:x'' @ [CARRIAGE_RETURN_CHARACTER]),
      (2, [LINE_FEED_CHARACTER] @ ''data:y''
            @ [CARRIAGE_RETURN_CHARACTER, LINE_FEED_CHARACTER, CARRIAGE_RETURN_CHARACTER]),
      (3, [LINE_FEED_CHARACTER])])
     = encode [(''data:x'', CRLF), (''data:y'', CRLF), ([], CRLF)] \<and>
   emitted (fst (write_all
     [(1::int, ''data:x'' @ [CARRIAGE_RETURN_CHARACTER]),
      (2, [LINE_FEED_CHARACTER] @ ''data:y''
            @ [CARRIAGE_RETURN_CHARACTER, LINE_FEED_CHARACTER, CARRIAGE_RETURN_CHARACTER]),
      (3, [LINE_FEED_CHARACTER])]
     (new_EventSource 30000, new_Stream True))) =
     emitted (new_EventSource 30000) @
       [(''message'',
         Record \<lparr>e_id = None, e_name = Some [], e_data = ''x'' @ [LINE_FEED_CHARACTER] @ ''y''\<rparr>)] \<and>
   \<not> discardTrailingNewline (snd (write_all
     [(1::int, ''data:x'' @ [CARRIAGE_RETURN_CHARACTER]),
      (2, [LINE_FEED_CHARACTER] @ ''data:y''
            @ [CARRIAGE_RETURN_CHARACTER, LINE_FEED_CHARACTER, CARRIAGE_RETURN_CHARACTER]),
      (3, [LINE_FEED_CHARACTER])]
     (new_EventSource 30000, new_Stream True)))"
proof -
  define ls where "ls = [(''data:x'', CRLF), (''data:y'', CRLF), ([], CRLF)]"
  define tcs where "tcs =
    [(1::int, ''data:x'' @ [CARRIAGE_RETURN_CHARACTER]),
     (2, [LINE_FEED_CHARACTER] @ ''data:y''
           @ [CARRIAGE_RETURN_CHARACTER, LINE_FEED_CHARACTER, CARRIAGE_RETURN_CHARACTER]),
     (3, [LINE_FEED_CHARACTER])]"
  define st where "st = (new_EventSource 30000, new_Stream True)"
  have h1: "\<forall>l\<in>set (map fst ls). plain_line l"
    by (simp add: ls_def plain_line_def is_terminator_def)
  have h2: "unambiguous ls" by (simp add: ls_def begins_with_line_feed_def)
  have h3: "buffer (snd st) = None" and h4: "\<not> discardTrailingNewline (snd st)"
    by (simp_all add: st_def new_Stream_def)
  have h5: "tcs \<noteq> []" by (simp add: tcs_def)
  have h6: "concat (map snd tcs) = encode ls" by (simp add: tcs_def ls_def)
  have p: "emitted (fst (parse_lines (map fst ls) st)) =
     emitted (new_EventSource 30000) @
       [(''message'',
         Record \<lparr>e_id = None, e_name = Some [], e_data = ''x'' @ [LINE_FEED_CHARACTER] @ ''y''\<rparr>)]"
    by (simp add: ls_def st_def parse_line_def parseEventStreamLine_def fieldLength_of_def slice_def
          slice_index_def byte_at_def store_field_def dispatch_def emit_def or_message_def
          Let_def new_Stream_def)
  have l: "(ls \<noteq> [] \<and> snd (last ls) = CR) = False" by (simp add: ls_def)
  note th = line_terminators_uniform[OF h1 h2 h3 h4 h5 h6, unfolded p l]
  have e: "emitted (fst (write_all tcs st)) =
     emitted (new_EventSource 30000) @
       [(''message'',
         Record \<lparr>e_id = None, e_name = Some [], e_data = ''x'' @ [LINE_FEED_CHARACTER] @ ''y''\<rparr>)]"
    and d: "\<not> discardTrailingNewline (snd (write_all tcs st))"
    using th by simp_all
  show ?thesis
    unfolding ls_def[symmetric] tcs_def[symmetric] st_def[symmetric]
    by (intro conjI h2 h3 h4 h5 h6 e d)
qed

section \<open>The \<open>id\<close> field\<close>

text \<open>
  C4. An \<open>id\<close> field whose value holds a NUL character is to be ignored. The parser
  has no such test: the line \<open>id:1\<close> followed by a NUL sets the pending id to the value
  with the NUL, and the blank line after it makes that value the Last-Event-Id. The
  earlier variant of the constructor does ignore it
  (\<open>earlier_variant_ignores_id_with_NUL\<close>).
\<close>

theorem id_with_NUL_is_stored:
  "eventId (snd (writable_write 1
       (''id:1'' @ [CHR 0x00, LINE_FEED_CHARACTER])
       (new_EventSource 30000, new_Stream True))) = Some (''1'' @ [CHR 0x00]) \<and>
   lastEventId (fst (writable_write 1
       (''id:1'' @ [CHR 0x00, LINE_FEED_CHARACTER, LINE_FEED_CHARACTER])
       (new_EventSource 30000, new_Stream True))) = Some (''1'' @ [CHR 0x00])"
  by code_simp

section \<open>Lines without a colon\<close>

text \<open>
  C5. A line that is not blank and holds no colon is to be taken as a field with an empty
  value. The parser drops it: after a line \<open>data\<close> the stream is as it was before, and
  the record made of this line alone emits nothing. The branch that would handle it
  (\<open>emptyValue\<close>) sits under the test \<open>fieldLength > 0\<close>, which a line without a colon
  fails; the earlier variant of the constructor appends the line feed
  (\<open>earlier_variant_keeps_line_without_colon\<close>).
\<close>

theorem line_without_colon_is_dropped:
  "snd (writable_write 1 (''data'' @ [LINE_FEED_CHARACTER]) (new_EventSource 30000, new_Stream True))
     = new_Stream True \<and>
   emitted (fst (writable_write 1 (''data'' @ [LINE_FEED_CHARACTER, LINE_FEED_CHARACTER])
                   (new_EventSource 30000, new_Stream True)))
     = emitted (new_EventSource 30000)"
  by code_simp

section \<open>Last-Event-Id\<close>




section \<open>The guard of \<open>connect\<close>\<close>

text \<open>
  C7. A call of \<open>connect\<close> in state \<open>CONNECTING\<close> or \<open>CONNECTED\<close> changes nothing:
  not the state, not the notifications, not the requests. Whatever happens to an
  instance after its construction, at most one request is pending.
\<close>

theorem connect_guard:
  "(readyState es = CONNECTING \<or> readyState es = CONNECTED \<longrightarrow> connect es = es) \<and>
   inflight (fst (steps xs (new_EventSource timeout, None))) \<le> 1"
proof
  show "readyState es = CONNECTING \<or> readyState es = CONNECTED \<longrightarrow> connect es = es"
    by (simp add: connect_noop)
  have "consistent (steps xs (new_EventSource timeout, None))"
    by (rule steps_consistent[OF new_consistent])
  then show "inflight (fst (steps xs (new_EventSource timeout, None))) \<le> 1"
    by (auto simp: consistent_def split: if_splits)
qed

theorem connect_guard_witness:
  "(readyState (new_EventSource 30000) = CONNECTING \<or> readyState (new_EventSource 30000) = CONNECTED) \<and>
   connect (new_EventSource 30000) = new_EventSource 30000 \<and>
   inflight (fst (steps [Connect, Response 200 (Some ''text/event-stream''), Connect, BackoffReady]
                    (new_EventSource 30000, None))) \<le> 1"
proof -
  have h: "readyState (new_EventSource 30000) = CONNECTING \<or> readyState (new_EventSource 30000) = CONNECTED"
    by (simp add: new_EventSource_value)
  note th = connect_guard[of "new_EventSource 30000"
      "[Connect, Response 200 (Some ''text/event-stream''), Connect, BackoffReady]" 30000]
  show ?thesis using th h by blast
qed

section \<open>Failures\<close>




section \<open>The heartbeat timer\<close>

text \<open>
  C9. The timer is to stop whenever the connection ends. Nothing stops it there: after a
  response has been accepted and its stream has ended, the interval is still set, and
  its next run calls the callback of the closed stream. The response accepted next then
  finds an interval set, so that \<open>resetHeartbeatTimeout\<close> returns without a timer for the
  new stream and without a function to mark it alive: its chunks leave \<open>lastHeartbeat\<close>
  unset, the old interval clears itself at its next run, and from then on no run of the
  timer function, at whatever times, ever ends the second connection.
\<close>

theorem heartbeat_timer_survives_teardown:
  "heartbeatInterval (fst (steps [Response 200 (Some ''text/event-stream''), End] (new_EventSource 30000, None))) = Some 1 \<and>
   readyState (fst (steps [Response 200 (Some ''text/event-stream''), End] (new_EventSource 30000, None))) = DISCONNECTED \<and>
   snd (steps [Response 200 (Some ''text/event-stream''), End] (new_EventSource 30000, None)) = None \<and>
   destroyed (fst (steps [Response 200 (Some ''text/event-stream''), End, Tick 60000] (new_EventSource 30000, None)))
     = [(1, NoHeartbeat 30000)] \<and>
   snd (steps [Response 200 (Some ''text/event-stream''), End, BackoffReady, Response 200 (Some ''text/event-stream'')] (new_EventSource 30000, None))
     = Some (new_Stream False) \<and>
   lastHeartbeat (fst (steps [Response 200 (Some ''text/event-stream''), End, BackoffReady, Response 200 (Some ''text/event-stream''), Chunk 29999 '':'']
                         (new_EventSource 30000, None))) = None \<and>
   readyState (fst (steps [Response 200 (Some ''text/event-stream''), End, BackoffReady, Response 200 (Some ''text/event-stream''), Tick 30000]
                      (new_EventSource 30000, None))) = CONNECTED \<and>
   destroyed (fst (steps [Response 200 (Some ''text/event-stream''), End, BackoffReady, Response 200 (Some ''text/event-stream''), Tick 30000]
                     (new_EventSource 30000, None))) = [(1, NoHeartbeat 30000)] \<and>
   steps (map Tick ts)
     (steps [Response 200 (Some ''text/event-stream''), End, BackoffReady, Response 200 (Some ''text/event-stream''), Tick 30000] (new_EventSource 30000, None))
     = steps [Response 200 (Some ''text/event-stream''), End, BackoffReady, Response 200 (Some ''text/event-stream''), Tick 30000] (new_EventSource 30000, None)"
proof -
  have "heartbeatInterval (fst (steps [Response 200 (Some ''text/event-stream''), End, BackoffReady, Response 200 (Some ''text/event-stream''), Tick 30000]
                      (new_EventSource 30000, None))) = None"
    by code_simp
  then have t: "steps (map Tick ts)
     (steps [Response 200 (Some ''text/event-stream''), End, BackoffReady, Response 200 (Some ''text/event-stream''), Tick 30000] (new_EventSource 30000, None))
     = steps [Response 200 (Some ''text/event-stream''), End, BackoffReady, Response 200 (Some ''text/event-stream''), Tick 30000] (new_EventSource 30000, None)"
    by (rule ticks_without_timer)
  have c: "heartbeatInterval (fst (steps [Response 200 (Some ''text/event-stream''), End] (new_EventSource 30000, None))) = Some 1"
    "readyState (fst (steps [Response 200 (Some ''text/event-stream''), End] (new_EventSource 30000, None))) = DISCONNECTED"
    "snd (steps [Response 200 (Some ''text/event-stream''), End] (new_EventSource 30000, None)) = None"
    "destroyed (fst (steps [Response 200 (Some ''text/event-stream''), End, Tick 60000] (new_EventSource 30000, None)))
       = [(1, NoHeartbeat 30000)]"
    "snd (steps [Response 200 (Some ''text/event-stream''), End, BackoffReady, Response 200 (Some ''text/event-stream'')] (new_EventSource 30000, None))
       = Some (new_Stream False)"
    "lastHeartbeat (fst (steps [Response 200 (Some ''text/event-stream''), End, BackoffReady, Response 200 (Some ''text/event-stream''), Chunk 29999 '':'']
                         (new_EventSource 30000, None))) = None"
    "readyState (fst (steps [Response 200 (Some ''text/event-stream''), End, BackoffReady, Response 200 (Some ''text/event-stream''), Tick 30000]
                      (new_EventSource 30000, None))) = CONNECTED"
    "destroyed (fst (steps [Response 200 (Some ''text/event-stream''), End, BackoffReady, Response 200 (Some ''text/event-stream''), Tick 30000]
                     (new_EventSource 30000, None))) = [(1, NoHeartbeat 30000)]"
    by code_simp+
  show ?thesis using c t by blast
qed

section \<open>The \<open>Last-Event-ID\<close> header\<close>

text \<open>
  C10. A call of \<open>connect\<close> that opens a request sends the header \<open>Last-Event-ID\<close>
  exactly when Last-Event-Id is set and not the empty string; the header then holds its
  value. The empty string is what a record with an \<open>id:\<close> line of empty value stores.
\<close>

theorem header_only_when_nonempty:
  "(readyState es = DISCONNECTED \<longrightarrow>
      requests (connect es) =
        requests es @
          [case lastEventId es of
             None \<Rightarrow> []
           | Some v \<Rightarrow> if v = [] then [] else [(''Last-Event-ID'', v)]]) \<and>
   (buffer (snd st) = None \<and> \<not> discardTrailingNewline (snd st) \<longrightarrow>
      lastEventId (fst (writable_write now (record_bytes [''id:'']) st)) = Some [])"
proof (intro conjI impI)
  assume "readyState es = DISCONNECTED"
  then show "requests (connect es) =
        requests es @
          [case lastEventId es of
             None \<Rightarrow> []
           | Some v \<Rightarrow> if v = [] then [] else [(''Last-Event-ID'', v)]]"
    by (simp add: connect_opens)
next
  assume a: "buffer (snd st) = None \<and> \<not> discardTrailingNewline (snd st)"
  have pl: "\<forall>l\<in>set [''id:'']. plain_line l" by (simp add: plain_line_def is_terminator_def)
  have v: "field_value ''id'' ''id:'' = Some []" by (simp add: field_value_def)
  have "lastEventId (fst (writable_write now (record_bytes [''id:'']) st))
      = lastEventId (fst (dispatch (parse_lines [''id:''] st)))"
    using a by (simp add: writable_write_consume consume_record[OF pl] set_alive_def)
  then show "lastEventId (fst (writable_write now (record_bytes [''id:'']) st)) = Some []"
    by (simp add: dispatch_lastEventId parse_line_eventId v)
qed

theorem header_only_when_nonempty_witness:
  "readyState (fst (steps [Response 200 (Some ''text/event-stream''),
                           Chunk 1 (''id:'' @ [LINE_FEED_CHARACTER, LINE_FEED_CHARACTER]), End]
                     (new_EventSource 30000, None))) = DISCONNECTED \<and>
   lastEventId (fst (steps [Response 200 (Some ''text/event-stream''),
                           Chunk 1 (''id:'' @ [LINE_FEED_CHARACTER, LINE_FEED_CHARACTER]), End]
                     (new_EventSource 30000, None))) = Some [] \<and>
   requests (connect (fst (steps [Response 200 (Some ''text/event-stream''),
                           Chunk 1 (''id:'' @ [LINE_FEED_CHARACTER, LINE_FEED_CHARACTER]), End]
                     (new_EventSource 30000, None)))) = [[], []] \<and>
   buffer (snd (new_EventSource 30000, new_Stream True)) = None \<and>
   \<not> discardTrailingNewline (snd (new_EventSource 30000, new_Stream True)) \<and>
   lastEventId (fst (writable_write 1 (record_bytes [''id:''])
                      (new_EventSource 30000, new_Stream True))) = Some []"
proof -
  define es where "es = fst (steps [Response 200 (Some ''text/event-stream''),
                           Chunk 1 (''id:'' @ [LINE_FEED_CHARACTER, LINE_FEED_CHARACTER]), End]
                     (new_EventSource 30000, None))"
  define st where "st = (new_EventSource 30000, new_Stream True)"
  have h1: "readyState es = DISCONNECTED" unfolding es_def by code_simp
  have l: "lastEventId es = Some []" unfolding es_def by code_simp
  have r: "requests es = [[]]" unfolding es_def by code_simp
  have h2: "buffer (snd st) = None \<and> \<not> discardTrailingNewline (snd st)"
    by (simp add: st_def new_Stream_def)
  note th = header_only_when_nonempty[of es st 1]
  have a: "requests (connect es) = [[], []]" using th h1 l r by simp
  have b: "lastEventId (fst (writable_write 1 (record_bytes [''id:'']) st)) = Some []"
    using th h2 by blast
  show ?thesis
    unfolding es_def[symmetric] st_def[symmetric] using h1 l a h2 b by blast
qed

end
